theory Spec2Isabelle
  imports Main "HOL-Library.Word" "HOL-Library.Sublist"
begin

section \<open>The task store of todoApp (main.go)\<close>

text \<open>
  The development follows \<^verbatim>\<open>main.go\<close>: the \<^verbatim>\<open>Task\<close> and \<^verbatim>\<open>TaskStore\<close> structs, the
  persistence functions \<^verbatim>\<open>load\<close> and \<^verbatim>\<open>save\<close>, and the operations \<^verbatim>\<open>List\<close>,
  \<^verbatim>\<open>Create\<close>, \<^verbatim>\<open>Toggle\<close> and \<^verbatim>\<open>Delete\<close>. The mutex is not modelled: the operations
  are taken one at a time, which is what the exclusive lock enforces.
\<close>

subsection \<open>Data\<close>

text \<open>
  Go's \<^verbatim>\<open>int\<close> is a 64-bit two's complement integer on 64-bit targets: \<open>+\<close> wraps
  around, comparisons are signed (\<open><s\<close>). A \<^verbatim>\<open>time.Time\<close> is only stored and
  copied by the program, never inspected; it is represented by an integer instant.
  A Go string is a sequence of bytes, as \<open>string\<close> is.
\<close>

type_synonym int64 = "64 word"
type_synonym time = int

record Task =
  ID :: int64
  Title :: string
  Done :: bool
  CreatedAt :: time

record TaskStore =
  tasks :: "Task list"
  nextID :: int64
  dataDir :: string

text \<open>
  The errors of the program are strings: \<^verbatim>\<open>"title is required"\<close> (the specification's
  ValidationError), \<^verbatim>\<open>"task not found"\<close> (NotFoundError), and the wrapped I/O errors of
  \<^verbatim>\<open>load\<close> and \<^verbatim>\<open>save\<close> (PersistenceError), one per step that can fail.
\<close>

datatype persist_step =
    CreateDataDir     \<comment> \<open>\<^verbatim>\<open>"create data dir: ..."\<close>\<close>
  | OpenTasksFile     \<comment> \<open>\<^verbatim>\<open>"open tasks file: ..."\<close>\<close>
  | DecodeTasksFile   \<comment> \<open>\<^verbatim>\<open>"decode tasks file: ..."\<close>\<close>
  | CreateTempFile    \<comment> \<open>\<^verbatim>\<open>"create temp file: ..."\<close>\<close>
  | EncodeTasks       \<comment> \<open>\<^verbatim>\<open>"encode tasks: ..."\<close>\<close>
  | CloseTempFile     \<comment> \<open>\<^verbatim>\<open>"close temp file: ..."\<close>\<close>
  | RenameTempFile    \<comment> \<open>\<^verbatim>\<open>"rename temp file: ..."\<close>\<close>

datatype error = TitleRequired | TaskNotFound | Persist persist_step

subsection \<open>The environment: JSON library and file system\<close>

text \<open>
  \<^verbatim>\<open>encoding/json\<close> is not part of the program. It is a parameter: \<open>Encode\<close> gives the
  document written for a task sequence (or fails), \<open>Decode\<close> the sequence a document
  decodes to (or fails: the file is malformed). The type \<open>'f\<close> of file contents is left
  open. Nothing is assumed about the two functions unless a theorem says so.
\<close>

record 'f json =
  Encode :: "Task list \<Rightarrow> 'f option"
  Decode :: "'f \<Rightarrow> Task list option"

text \<open>
  The disk is the content of \<^verbatim>\<open>tasks.json\<close> in the data directory, \<open>None\<close> when the file
  does not exist. The temporary file \<^verbatim>\<open>tasks.json.tmp\<close> is written and renamed or removed
  by \<^verbatim>\<open>save\<close> and never read, so it is not part of the state.

  Whether a system call fails is decided by the environment. One value of \<open>save_io\<close>
  (\<open>load_io\<close>) names the first call of \<^verbatim>\<open>save\<close> (\<^verbatim>\<open>load\<close>) that fails, if any.
\<close>

type_synonym 'f disk = "'f option"

datatype load_io = LoadOK | MkdirErr | OpenErr | ReadErr

datatype save_io = SaveOK | CreateErr | WriteErr | CloseErr | RenameErr

subsection \<open>strings.TrimSpace\<close>

text \<open>
  \<^verbatim>\<open>strings.TrimSpace\<close> removes from both ends of a string the runes for which
  \<^verbatim>\<open>unicode.IsSpace\<close> holds. On the bytes of the string that is: as long as the string
  starts (ends) with the UTF-8 encoding of such a rune, drop that encoding. The runes are
  U+0009 to U+000D, U+0020, U+0085, U+00A0, U+1680, U+2000 to U+200A, U+2028, U+2029,
  U+202F, U+205F and U+3000.
\<close>

definition spaceEncodings :: "string list" where
  "spaceEncodings =
     [ [CHR 0x09], [CHR 0x0A], [CHR 0x0B], [CHR 0x0C], [CHR 0x0D], [CHR 0x20],
      [CHR 0xC2, CHR 0x85], [CHR 0xC2, CHR 0xA0],
      [CHR 0xE1, CHR 0x9A, CHR 0x80],
      [CHR 0xE2, CHR 0x80, CHR 0x80], [CHR 0xE2, CHR 0x80, CHR 0x81],
      [CHR 0xE2, CHR 0x80, CHR 0x82], [CHR 0xE2, CHR 0x80, CHR 0x83],
      [CHR 0xE2, CHR 0x80, CHR 0x84], [CHR 0xE2, CHR 0x80, CHR 0x85],
      [CHR 0xE2, CHR 0x80, CHR 0x86], [CHR 0xE2, CHR 0x80, CHR 0x87],
      [CHR 0xE2, CHR 0x80, CHR 0x88], [CHR 0xE2, CHR 0x80, CHR 0x89],
      [CHR 0xE2, CHR 0x80, CHR 0x8A],
      [CHR 0xE2, CHR 0x80, CHR 0xA8], [CHR 0xE2, CHR 0x80, CHR 0xA9],
      [CHR 0xE2, CHR 0x80, CHR 0xAF], [CHR 0xE2, CHR 0x81, CHR 0x9F],
      [CHR 0xE3, CHR 0x80, CHR 0x80] ]"

definition leadingSpace :: "string \<Rightarrow> nat" where
  \<comment> \<open>the width in bytes of the first rune when it is a space, 0 otherwise\<close>
  "leadingSpace s =
     (case List.find (\<lambda>p. prefix p s) spaceEncodings of None \<Rightarrow> 0 | Some p \<Rightarrow> length p)"

definition trailingSpace :: "string \<Rightarrow> nat" where
  \<comment> \<open>the width in bytes of the last rune when it is a space, 0 otherwise\<close>
  "trailingSpace s =
     (case List.find (\<lambda>p. suffix p s) spaceEncodings of None \<Rightarrow> 0 | Some p \<Rightarrow> length p)"

function TrimLeft :: "string \<Rightarrow> string" where
  "TrimLeft s = (if leadingSpace s = 0 then s else TrimLeft (drop (leadingSpace s) s))"
  by pat_completeness auto
termination
proof (relation "measure length")
  fix s :: string
  assume "leadingSpace s \<noteq> 0"
  moreover have "leadingSpace s \<le> length s"
    by (auto simp: leadingSpace_def find_Some_iff prefix_length_le split: option.splits)
  ultimately show "(drop (leadingSpace s) s, s) \<in> measure length" by simp
qed simp

function TrimRight :: "string \<Rightarrow> string" where
  "TrimRight s =
     (if trailingSpace s = 0 then s else TrimRight (take (length s - trailingSpace s) s))"
  by pat_completeness auto
termination
proof (relation "measure length")
  fix s :: string
  assume "trailingSpace s \<noteq> 0"
  moreover have "trailingSpace s \<le> length s"
    by (auto simp: trailingSpace_def find_Some_iff suffix_length_le split: option.splits)
  ultimately show "(take (length s - trailingSpace s) s, s) \<in> measure length" by simp
qed simp

declare TrimLeft.simps [simp del] TrimRight.simps [simp del]

definition TrimSpace :: "string \<Rightarrow> string" where
  "TrimSpace s = TrimRight (TrimLeft s)"

subsection \<open>load and save\<close>

text \<open>The loop of \<^verbatim>\<open>load\<close> that finds the largest id, from the initial \<^verbatim>\<open>maxID := 0\<close>.\<close>

fun maxID_loop :: "int64 \<Rightarrow> Task list \<Rightarrow> int64" where
  "maxID_loop maxID [] = maxID"
| "maxID_loop maxID (t # ts) = maxID_loop (if maxID <s ID t then ID t else maxID) ts"

definition load :: "'f json \<Rightarrow> load_io \<Rightarrow> TaskStore \<Rightarrow> 'f disk \<Rightarrow> error + TaskStore" where
  "load J io s d =
     (if io = MkdirErr then Inl (Persist CreateDataDir)
      else if io = OpenErr then Inl (Persist OpenTasksFile)
      else case d of
        None \<Rightarrow> Inr s
      | Some f \<Rightarrow>
          (case (if io = ReadErr then None else Decode J f) of
             None \<Rightarrow> Inl (Persist DecodeTasksFile)
           | Some loaded \<Rightarrow>
               (let maxID = maxID_loop 0 loaded;
                    n = maxID + 1
                in Inr (s\<lparr>tasks := loaded, nextID := (if n <s 1 then 1 else n)\<rparr>))))"

definition NewTaskStore :: "'f json \<Rightarrow> load_io \<Rightarrow> string \<Rightarrow> 'f disk \<Rightarrow> error + TaskStore" where
  "NewTaskStore J io dir d = load J io \<lparr>tasks = [], nextID = 1, dataDir = dir\<rparr> d"

text \<open>
  \<^verbatim>\<open>save\<close> creates the temporary file, encodes the tasks into it, closes it and renames
  it over the data file; the data file changes only when all four steps succeed.
\<close>

definition save :: "'f json \<Rightarrow> save_io \<Rightarrow> TaskStore \<Rightarrow> 'f disk \<Rightarrow> error option \<times> 'f disk" where
  "save J io s d =
     (if io = CreateErr then (Some (Persist CreateTempFile), d)
      else case (if io = WriteErr then None else Encode J (tasks s)) of
        None \<Rightarrow> (Some (Persist EncodeTasks), d)
      | Some f \<Rightarrow>
          if io = CloseErr then (Some (Persist CloseTempFile), d)
          else if io = RenameErr then (Some (Persist RenameTempFile), d)
          else (None, Some f))"

subsection \<open>The operations\<close>

definition List :: "TaskStore \<Rightarrow> Task list" where
  "List s = tasks s"

definition Create ::
  "'f json \<Rightarrow> save_io \<Rightarrow> time \<Rightarrow> string \<Rightarrow> TaskStore \<Rightarrow> 'f disk
     \<Rightarrow> (error + Task) \<times> TaskStore \<times> 'f disk" where
  "Create J io now title s d =
     (let title = TrimSpace title in
      if title = [] then (Inl TitleRequired, s, d)
      else
        let task = \<lparr>ID = nextID s, Title = title, Done = False, CreatedAt = now\<rparr>;
            s = s\<lparr>nextID := nextID s + 1\<rparr>;
            s = s\<lparr>tasks := tasks s @ [task]\<rparr>
        in case save J io s d of
             (Some err, d) \<Rightarrow> (Inl err, s, d)
           | (None, d) \<Rightarrow> (Inr task, s, d))"

text \<open>The index of the first task with the given id: the \<^verbatim>\<open>range\<close> loops of
  \<^verbatim>\<open>Toggle\<close> and \<^verbatim>\<open>Delete\<close>, which return at the first match.\<close>

fun find_task :: "int64 \<Rightarrow> Task list \<Rightarrow> nat option" where
  "find_task tid [] = None"
| "find_task tid (t # ts) = (if ID t = tid then Some 0 else map_option Suc (find_task tid ts))"

definition Toggle ::
  "'f json \<Rightarrow> save_io \<Rightarrow> int64 \<Rightarrow> TaskStore \<Rightarrow> 'f disk
     \<Rightarrow> (error + Task) \<times> TaskStore \<times> 'f disk" where
  "Toggle J io tid s d =
     (case find_task tid (tasks s) of
        None \<Rightarrow> (Inl TaskNotFound, s, d)
      | Some i \<Rightarrow>
          let s = s\<lparr>tasks := (tasks s)[i := (tasks s ! i)\<lparr>Done := \<not> Done (tasks s ! i)\<rparr>]\<rparr>
          in case save J io s d of
               (Some err, d) \<Rightarrow> (Inl err, s, d)
             | (None, d) \<Rightarrow> (Inr (tasks s ! i), s, d))"

definition Delete ::
  "'f json \<Rightarrow> save_io \<Rightarrow> int64 \<Rightarrow> TaskStore \<Rightarrow> 'f disk \<Rightarrow> error option \<times> TaskStore \<times> 'f disk" where
  "Delete J io tid s d =
     (case find_task tid (tasks s) of
        None \<Rightarrow> (Some TaskNotFound, s, d)
      | Some i \<Rightarrow>
          let s = s\<lparr>tasks := take i (tasks s) @ drop (i + 1) (tasks s)\<rparr>
          in case save J io s d of (err, d) \<Rightarrow> (err, s, d))"

subsection \<open>Sequences of operations\<close>

text \<open>
  A request is one call of \<^verbatim>\<open>Create\<close>, \<^verbatim>\<open>Toggle\<close> or \<^verbatim>\<open>Delete\<close>, together with what the
  environment does during the call (the clock for \<^verbatim>\<open>time.Now\<close>, the outcome of the system
  calls of \<^verbatim>\<open>save\<close>). \<open>run\<close> performs requests one after the other, as the handlers
  of \<^verbatim>\<open>main\<close> do under the lock, and collects the ids returned by the calls of
  \<^verbatim>\<open>Create\<close> that succeed.
\<close>

datatype op = OpCreate save_io time string | OpToggle save_io int64 | OpDelete save_io int64

fun apply_op :: "'f json \<Rightarrow> op \<Rightarrow> TaskStore \<Rightarrow> 'f disk \<Rightarrow> int64 list \<times> TaskStore \<times> 'f disk" where
  "apply_op J (OpCreate io now title) s d =
     (case Create J io now title s d of
        (Inr task, s, d) \<Rightarrow> ([ID task], s, d)
      | (Inl err, s, d) \<Rightarrow> ([], s, d))"
| "apply_op J (OpToggle io tid) s d = (case Toggle J io tid s d of (r, s, d) \<Rightarrow> ([], s, d))"
| "apply_op J (OpDelete io tid) s d = (case Delete J io tid s d of (r, s, d) \<Rightarrow> ([], s, d))"

fun run :: "'f json \<Rightarrow> op list \<Rightarrow> TaskStore \<Rightarrow> 'f disk \<Rightarrow> int64 list \<times> TaskStore \<times> 'f disk" where
  "run J [] s d = ([], s, d)"
| "run J (x # xs) s d =
     (case apply_op J x s d of
        (ids, s, d) \<Rightarrow> (case run J xs s d of (ids', s, d) \<Rightarrow> (ids @ ids', s, d)))"

subsection \<open>List on slices and backing arrays\<close>

text \<open>
  A Go slice is a window on a backing array, and two slices on one array share their
  elements. For \<^verbatim>\<open>List\<close>, whose point is the copy, the memory is explicit: the heap is
  the list of the arrays allocated so far, an address is an index in it, and a slice is
  an array, an offset, a length and a capacity. \<^verbatim>\<open>make\<close> allocates a new array of zero
  values, \<^verbatim>\<open>copy\<close> writes the first elements of the source over those of the
  destination, and \<open>store_elem\<close> is the assignment \<^verbatim>\<open>sl[i] = v\<close> (\<open>None\<close>: the index
  is out of range and the program panics).
\<close>

type_synonym addr = nat
type_synonym heap = "Task list list"

record slice =
  sl_array :: addr
  sl_off :: nat
  sl_len :: nat
  sl_cap :: nat

definition valid_slice :: "heap \<Rightarrow> slice \<Rightarrow> bool" where
  "valid_slice h sl \<longleftrightarrow>
     sl_array sl < length h \<and> sl_len sl \<le> sl_cap sl \<and>
     sl_off sl + sl_cap sl \<le> length (h ! sl_array sl)"

definition elems :: "heap \<Rightarrow> slice \<Rightarrow> Task list" where
  "elems h sl = take (sl_len sl) (drop (sl_off sl) (h ! sl_array sl))"

definition zeroTask :: Task where
  "zeroTask = \<lparr>ID = 0, Title = [], Done = False, CreatedAt = 0\<rparr>"

definition make :: "heap \<Rightarrow> nat \<Rightarrow> slice \<times> heap" where
  "make h n =
     (\<lparr>sl_array = length h, sl_off = 0, sl_len = n, sl_cap = n\<rparr>, h @ [replicate n zeroTask])"

definition copy :: "heap \<Rightarrow> slice \<Rightarrow> slice \<Rightarrow> nat \<times> heap" where
  "copy h dst src =
     (let n = min (sl_len dst) (sl_len src);
          a = h ! sl_array dst
      in (n, h[sl_array dst :=
                 take (sl_off dst) a @ take n (elems h src) @ drop (sl_off dst + n) a]))"

definition store_elem :: "heap \<Rightarrow> slice \<Rightarrow> nat \<Rightarrow> Task \<Rightarrow> heap option" where
  "store_elem h sl i v =
     (if i < sl_len sl
      then Some (h[sl_array sl := (h ! sl_array sl)[sl_off sl + i := v]])
      else None)"

definition List_slices :: "heap \<Rightarrow> slice \<Rightarrow> slice \<times> heap" where
  "List_slices h ts =
     (case make h (sl_len ts) of
        (out, h) \<Rightarrow> (case copy h out ts of (n, h) \<Rightarrow> (out, h)))"

subsection \<open>encoding/json\<close>

text \<open>
  The encoder of \<^verbatim>\<open>encoding/json\<close> writes a string coerced to valid UTF-8: it goes
  through the bytes with \<^verbatim>\<open>utf8.DecodeRuneInString\<close>, keeps every well-formed encoding
  and writes U+FFFD (the bytes EF BF BD) for every byte that does not start one. The
  well-formed encodings are those of the Unicode standard: one byte 00..7F; C2..DF and a
  continuation byte 80..BF; E0..EF and two continuation bytes; F0..F4 and three; where
  the second byte is restricted to A0..BF after E0, 80..9F after ED, 90..BF after F0 and
  80..8F after F4. \<open>runeWidth\<close> is the width of the encoding a string starts with, 0
  when it starts with none.
\<close>

definition between :: "nat \<Rightarrow> nat \<Rightarrow> char \<Rightarrow> bool" where
  "between lo hi c \<longleftrightarrow> lo \<le> of_char c \<and> of_char c \<le> hi"

definition secondLo :: "char \<Rightarrow> nat" where
  "secondLo a = (if a = CHR 0xE0 then 0xA0 else if a = CHR 0xF0 then 0x90 else 0x80)"

definition secondHi :: "char \<Rightarrow> nat" where
  "secondHi a = (if a = CHR 0xED then 0x9F else if a = CHR 0xF4 then 0x8F else 0xBF)"

fun runeWidth :: "string \<Rightarrow> nat" where
  "runeWidth [] = 0"
| "runeWidth (a # s) =
     (if between 0x00 0x7F a then 1
      else if between 0xC2 0xDF a then
        (case s of
           b # _ \<Rightarrow> if between 0x80 0xBF b then 2 else 0
         | _ \<Rightarrow> 0)
      else if between 0xE0 0xEF a then
        (case s of
           b # c # _ \<Rightarrow>
             if between (secondLo a) (secondHi a) b \<and> between 0x80 0xBF c then 3 else 0
         | _ \<Rightarrow> 0)
      else if between 0xF0 0xF4 a then
        (case s of
           b # c # d # _ \<Rightarrow>
             if between (secondLo a) (secondHi a) b \<and> between 0x80 0xBF c \<and>
                between 0x80 0xBF d
             then 4 else 0
         | _ \<Rightarrow> 0)
      else 0)"

function coerceUTF8 :: "string \<Rightarrow> string" where
  "coerceUTF8 s =
     (if s = [] then []
      else if runeWidth s = 0 then [CHR 0xEF, CHR 0xBF, CHR 0xBD] @ coerceUTF8 (tl s)
      else take (runeWidth s) s @ coerceUTF8 (drop (runeWidth s) s))"
  by pat_completeness auto
termination
  by (relation "measure length") (auto simp: neq_Nil_conv)

function validUTF8 :: "string \<Rightarrow> bool" where
  "validUTF8 s =
     (if s = [] then True
      else if runeWidth s = 0 then False
      else validUTF8 (drop (runeWidth s) s))"
  by pat_completeness auto
termination
  by (relation "measure length") (auto simp: neq_Nil_conv)

declare coerceUTF8.simps [simp del] validUTF8.simps [simp del]

text \<open>
  The library as the program uses it. A file either does not decode into \<^verbatim>\<open>[]Task\<close>
  or is a JSON array of task objects, represented by the tasks with the strings as they
  are in the file. \<^verbatim>\<open>Encode\<close> writes the array of the tasks with the titles coerced; it
  fails when \<^verbatim>\<open>MarshalJSON\<close> of a creation time fails (the year is outside 0..9999),
  which is the parameter \<open>marshals\<close>. \<^verbatim>\<open>Decode\<close> coerces the strings it reads in the
  same way. Integers, booleans and RFC 3339 times with nanoseconds are read back as
  written.
\<close>

datatype document = Malformed | TaskArray "Task list"

definition coerceTask :: "Task \<Rightarrow> Task" where
  "coerceTask t = t\<lparr>Title := coerceUTF8 (Title t)\<rparr>"

definition go_json :: "(time \<Rightarrow> bool) \<Rightarrow> document json" where
  "go_json marshals =
     \<lparr>Encode = (\<lambda>ts. if list_all (\<lambda>t. marshals (CreatedAt t)) ts
                     then Some (TaskArray (map coerceTask ts)) else None),
      Decode = (\<lambda>f. case f of Malformed \<Rightarrow> None
                              | TaskArray ts \<Rightarrow> Some (map coerceTask ts))\<rparr>"

subsection \<open>Constants and sample values\<close>

definition MaxInt64 :: int64 where
  "MaxInt64 = 0x7FFFFFFFFFFFFFFF"

definition MinInt64 :: int64 where
  "MinInt64 = 0x8000000000000000"

text \<open>
  An instance of the JSON parameter for concrete runs: a document is represented by the
  task sequence it stands for, so that encoding and decoding never fail.
\<close>

definition plain_json :: "Task list json" where
  "plain_json = \<lparr>Encode = Some, Decode = Some\<rparr>"

definition mk_task :: "int64 \<Rightarrow> string \<Rightarrow> Task" where
  "mk_task i title = \<lparr>ID = i, Title = title, Done = False, CreatedAt = 0\<rparr>"

definition empty_store :: TaskStore where
  "empty_store = \<lparr>tasks = [], nextID = 1, dataDir = ''data''\<rparr>"

definition one_task_store :: TaskStore where
  "one_task_store = \<lparr>tasks = [mk_task 1 ''Buy milk''], nextID = 2, dataDir = ''data''\<rparr>"

definition dup_store :: TaskStore where
  "dup_store = \<lparr>tasks = [mk_task 1 ''a'', mk_task 1 ''b''], nextID = 2, dataDir = ''data''\<rparr>"

definition neg_store :: TaskStore where
  "neg_store = \<lparr>tasks = [mk_task (- 5) ''x''], nextID = 1, dataDir = ''data''\<rparr>"

definition near_max_store :: TaskStore where
  "near_max_store =
     \<lparr>tasks = [mk_task 0x7FFFFFFFFFFFFFFE ''old''], nextID = 0x7FFFFFFFFFFFFFFF,
        dataDir = ''data''\<rparr>"

definition every_time :: "time \<Rightarrow> bool" where
  "every_time t = True"

definition bad_title_store :: TaskStore where
  "bad_title_store = \<lparr>tasks = [mk_task 1 [CHR 0xFF]], nextID = 2, dataDir = ''data''\<rparr>"

definition top_store :: TaskStore where
  "top_store =
     \<lparr>tasks = [mk_task 0x7FFFFFFFFFFFFFFF ''top''], nextID = 1, dataDir = ''data''\<rparr>"

definition tasks_3_7_2 :: "Task list" where
  "tasks_3_7_2 = [mk_task 3 ''a'', mk_task 7 ''b'', mk_task 2 ''c'']"

text \<open>
  The invariant behind the uniqueness of ids: the ids in the store are distinct and all
  below \<open>nextID\<close>.
\<close>

definition ids_ok :: "TaskStore \<Rightarrow> bool" where
  "ids_ok s \<longleftrightarrow> distinct (map ID (tasks s)) \<and> (\<forall>t\<in>set (tasks s). ID t <s nextID s)"

section \<open>Properties\<close>

subsection \<open>strings.TrimSpace\<close>

text \<open>
  The trimmed string is a contiguous part of the string, and neither starts nor ends
  with the encoding of a space.
\<close>

lemma TrimLeft_suffix: "suffix (TrimLeft s) s"
proof (induction s rule: TrimLeft.induct)
  case (1 s)
  show ?case
  proof (cases "leadingSpace s = 0")
    case True
    then show ?thesis by (simp add: TrimLeft.simps [of s])
  next
    case False
    from 1 [OF False] have "suffix (TrimLeft (drop (leadingSpace s) s)) (drop (leadingSpace s) s)" .
    then have "suffix (TrimLeft (drop (leadingSpace s) s)) s"
      using suffix_drop suffix_order.trans by blast
    with False show ?thesis by (simp add: TrimLeft.simps [of s])
  qed
qed

lemma TrimLeft_done: "leadingSpace (TrimLeft s) = 0"
proof (induction s rule: TrimLeft.induct)
  case (1 s)
  then show ?case by (cases "leadingSpace s = 0") (simp_all add: TrimLeft.simps [of s])
qed

lemma TrimRight_prefix: "prefix (TrimRight s) s"
proof (induction s rule: TrimRight.induct)
  case (1 s)
  show ?case
  proof (cases "trailingSpace s = 0")
    case True
    then show ?thesis by (simp add: TrimRight.simps [of s])
  next
    case False
    from 1 [OF False]
    have "prefix (TrimRight (take (length s - trailingSpace s) s)) (take (length s - trailingSpace s) s)" .
    then have "prefix (TrimRight (take (length s - trailingSpace s) s)) s"
      using take_is_prefix prefix_order.trans by blast
    with False show ?thesis by (simp add: TrimRight.simps [of s])
  qed
qed

lemma TrimRight_done: "trailingSpace (TrimRight s) = 0"
proof (induction s rule: TrimRight.induct)
  case (1 s)
  then show ?case by (cases "trailingSpace s = 0") (simp_all add: TrimRight.simps [of s])
qed

lemma leadingSpace_prefix:
  assumes "prefix u s" and "leadingSpace s = 0"
  shows "leadingSpace u = 0"
proof -
  have "[] \<notin> set spaceEncodings" by (simp add: spaceEncodings_def)
  then have "List.find (\<lambda>p. prefix p s) spaceEncodings \<noteq> Some []"
    by (auto simp: find_Some_iff dest: nth_mem)
  then have "List.find (\<lambda>p. prefix p s) spaceEncodings = None"
    using assms(2) by (simp add: leadingSpace_def split: option.splits)
  then have "\<forall>p\<in>set spaceEncodings. \<not> prefix p s" by (simp add: find_None_iff)
  then have "\<forall>p\<in>set spaceEncodings. \<not> prefix p u"
    using assms(1) prefix_order.trans by blast
  then have "List.find (\<lambda>p. prefix p u) spaceEncodings = None" by (simp add: find_None_iff)
  then show ?thesis by (simp add: leadingSpace_def)
qed

lemma TrimSpace_trimmed:
  "leadingSpace (TrimSpace s) = 0 \<and> trailingSpace (TrimSpace s) = 0 \<and> sublist (TrimSpace s) s"
proof -
  have "leadingSpace (TrimSpace s) = 0"
    unfolding TrimSpace_def by (rule leadingSpace_prefix [OF TrimRight_prefix TrimLeft_done])
  moreover have "trailingSpace (TrimSpace s) = 0"
    unfolding TrimSpace_def by (rule TrimRight_done)
  moreover have "sublist (TrimSpace s) s"
    unfolding TrimSpace_def
    using TrimRight_prefix [of "TrimLeft s"] TrimLeft_suffix [of s]
    by (meson prefix_imp_sublist suffix_imp_sublist sublist_order.order.trans)
  ultimately show ?thesis by blast
qed

subsection \<open>save\<close>

lemma save_ok:
  "save J io s d = (None, d') \<Longrightarrow>
     io = SaveOK \<and> (\<exists>f. Encode J (tasks s) = Some f \<and> d' = Some f)"
  by (cases "Encode J (tasks s)"; cases io) (auto simp: save_def)

lemma save_err:
  "save J io s d = (Some e, d') \<Longrightarrow> d' = d \<and> (\<exists>p. e = Persist p)"
  by (auto simp: save_def split: option.splits if_splits)

subsection \<open>Create\<close>

lemma Create_cases:
  "Create J io now title s d = (r, s', d') \<Longrightarrow>
     (r = Inl TitleRequired \<and> s' = s \<and> d' = d) \<or>
     (s' = s\<lparr>nextID := nextID s + 1,
             tasks := tasks s @
               [\<lparr>ID = nextID s, Title = TrimSpace title, Done = False, CreatedAt = now\<rparr>]\<rparr> \<and>
      (r = Inr \<lparr>ID = nextID s, Title = TrimSpace title, Done = False, CreatedAt = now\<rparr> \<or>
       (\<exists>p. r = Inl (Persist p))))"
  by (auto simp: Create_def Let_def save_def split: option.splits if_splits prod.splits)

text \<open>
  C10. A title that trims to the empty string makes \<^verbatim>\<open>Create\<close> return
  \<^verbatim>\<open>"title is required"\<close> with the store and the disk as they were, whatever the
  environment would have done: no id is consumed, no task is appended, nothing is saved.
\<close>

theorem Create_validation_atomic:
  "TrimSpace title = [] \<Longrightarrow> Create J io now title s d = (Inl TitleRequired, s, d)"
  by (simp add: Create_def)

theorem Create_validation_atomic_witness:
  "TrimSpace '' '' = [] \<and>
   Create plain_json SaveOK 0 '' '' one_task_store None = (Inl TitleRequired, one_task_store, None)"
proof -
  have blank: "TrimSpace '' '' = []" by code_simp
  show ?thesis
    using blank Create_validation_atomic [OF blank, of plain_json SaveOK 0 one_task_store None]
    by simp
qed

text \<open>
  C3. \<^verbatim>\<open>Create\<close> returns \<^verbatim>\<open>"title is required"\<close> exactly when the title trimmed by
  \<^verbatim>\<open>strings.TrimSpace\<close> is empty. Every task it returns has the trimmed title, is not done,
  and has the store's \<open>nextID\<close> as its id; it does return that task when the title is not
  blank and the save succeeds. On the store built over an absent data file that id is 1.
\<close>

theorem Create_result:
  "(fst (Create J io now title s d) = Inl TitleRequired \<longleftrightarrow> TrimSpace title = []) \<and>
   (\<forall>task. fst (Create J io now title s d) = Inr task \<longrightarrow>
      task = \<lparr>ID = nextID s, Title = TrimSpace title, Done = False, CreatedAt = now\<rparr>) \<and>
   (TrimSpace title \<noteq> [] \<and> io = SaveOK \<and>
    Encode J (tasks s @
      [\<lparr>ID = nextID s, Title = TrimSpace title, Done = False, CreatedAt = now\<rparr>]) \<noteq> None \<longrightarrow>
      fst (Create J io now title s d) =
        Inr \<lparr>ID = nextID s, Title = TrimSpace title, Done = False, CreatedAt = now\<rparr>) \<and>
   (\<forall>s0 task. NewTaskStore J LoadOK dir None = Inr s0 \<and>
      fst (Create J io now title s0 d) = Inr task \<longrightarrow> ID task = 1)"
proof -
  obtain r s' d' where c: "Create J io now title s d = (r, s', d')"
    by (cases "Create J io now title s d") auto
  have a: "fst (Create J io now title s d) = Inl TitleRequired \<longleftrightarrow> TrimSpace title = []"
    by (auto simp: Create_def Let_def save_def split: option.splits if_splits)
  have b: "\<forall>task. fst (Create J io now title s d) = Inr task \<longrightarrow>
      task = \<lparr>ID = nextID s, Title = TrimSpace title, Done = False, CreatedAt = now\<rparr>"
    by (auto simp: Create_def Let_def save_def split: option.splits if_splits)
  have c: "TrimSpace title \<noteq> [] \<and> io = SaveOK \<and>
    Encode J (tasks s @
      [\<lparr>ID = nextID s, Title = TrimSpace title, Done = False, CreatedAt = now\<rparr>]) \<noteq> None \<longrightarrow>
      fst (Create J io now title s d) =
        Inr \<lparr>ID = nextID s, Title = TrimSpace title, Done = False, CreatedAt = now\<rparr>"
    by (auto simp: Create_def Let_def save_def split: option.splits if_splits)
  have d: "\<forall>s0 task. NewTaskStore J LoadOK dir None = Inr s0 \<and>
      fst (Create J io now title s0 d) = Inr task \<longrightarrow> ID task = 1"
    by (auto simp: Create_def Let_def save_def NewTaskStore_def load_def
           split: option.splits if_splits)
  from a b c d show ?thesis by blast
qed


theorem Create_result_witness:
  "NewTaskStore plain_json LoadOK ''data'' None = Inr empty_store \<and>
   fst (Create plain_json SaveOK 0 ''  Buy milk '' empty_store None) = Inr (mk_task 1 ''Buy milk'') \<and>
   fst (Create plain_json SaveOK 0 ''  '' empty_store None) = Inl TitleRequired"
proof -
  have trimmed: "TrimSpace ''  Buy milk '' = ''Buy milk''" by code_simp
  have blank: "TrimSpace ''  '' = []" by code_simp
  have fresh: "NewTaskStore plain_json LoadOK ''data'' None = Inr empty_store"
    by (simp add: NewTaskStore_def load_def empty_store_def)
  have nonblank: "TrimSpace ''  Buy milk '' \<noteq> []" using trimmed by simp
  have enc: "Encode plain_json (tasks empty_store @
      [\<lparr>ID = nextID empty_store, Title = TrimSpace ''  Buy milk '', Done = False, CreatedAt = 0\<rparr>]) \<noteq> None"
    by (simp add: plain_json_def)
  have one: "fst (Create plain_json SaveOK 0 ''  Buy milk '' empty_store None) =
        Inr \<lparr>ID = nextID empty_store, Title = TrimSpace ''  Buy milk '', Done = False, CreatedAt = 0\<rparr>"
    using Create_result [of plain_json SaveOK 0 "''  Buy milk ''" empty_store None "''data''"]
      nonblank enc by blast
  have two: "fst (Create plain_json SaveOK 0 ''  '' empty_store None) = Inl TitleRequired"
    using Create_result [of plain_json SaveOK 0 "''  ''" empty_store None "''data''"] blank
    by blast
  show ?thesis
    using fresh one two by (simp add: trimmed empty_store_def mk_task_def)
qed

text \<open>
  C4. When the title is not blank and the save of \<^verbatim>\<open>Create\<close> fails (a system call
  fails, or the encoding does), \<^verbatim>\<open>Create\<close> returns the wrapped I/O error, the disk is as
  it was, and the store keeps the mutation: the new task is at the end of the sequence,
  \<open>nextID\<close> is incremented, and \<^verbatim>\<open>List\<close> shows the task.
\<close>

theorem Create_no_rollback:
  assumes "TrimSpace title \<noteq> []"
    and "task = \<lparr>ID = nextID s, Title = TrimSpace title, Done = False, CreatedAt = now\<rparr>"
    and "io \<noteq> SaveOK \<or> Encode J (tasks s @ [task]) = None"
  shows "\<exists>p s'. Create J io now title s d = (Inl (Persist p), s', d) \<and>
           tasks s' = tasks s @ [task] \<and> nextID s' = nextID s + 1 \<and>
           List s' = List s @ [task]"
  using assms by (cases io) (auto simp: Create_def Let_def save_def List_def split: option.splits)

theorem Create_no_rollback_witness:
  "TrimSpace ''Walk dog'' \<noteq> [] \<and> RenameErr \<noteq> SaveOK \<and>
   (\<exists>p s'. Create plain_json RenameErr 7 ''Walk dog'' one_task_store None =
              (Inl (Persist p), s', None) \<and>
      nextID s' = 3 \<and>
      List s' = [mk_task 1 ''Buy milk'',
                 \<lparr>ID = 2, Title = ''Walk dog'', Done = False, CreatedAt = 7\<rparr>])"
proof -
  have trimmed: "TrimSpace ''Walk dog'' = ''Walk dog''" by code_simp
  then have nonblank: "TrimSpace ''Walk dog'' \<noteq> []" by simp
  have io: "RenameErr \<noteq> SaveOK \<or>
      Encode plain_json (tasks one_task_store @
        [\<lparr>ID = nextID one_task_store, Title = TrimSpace ''Walk dog'', Done = False,
           CreatedAt = 7\<rparr>]) = None"
    by simp
  from Create_no_rollback [OF nonblank refl io, of None]
  obtain p s' where r: "Create plain_json RenameErr 7 ''Walk dog'' one_task_store None =
        (Inl (Persist p), s', None)"
    and n: "nextID s' = nextID one_task_store + 1"
    and l: "List s' = List one_task_store @
        [\<lparr>ID = nextID one_task_store, Title = TrimSpace ''Walk dog'', Done = False,
           CreatedAt = 7\<rparr>]"
    by blast
  have "nextID s' = 3" using n by (simp add: one_task_store_def)
  moreover have "List s' = [mk_task 1 ''Buy milk'',
                 \<lparr>ID = 2, Title = ''Walk dog'', Done = False, CreatedAt = 7\<rparr>]"
    using l by (simp add: trimmed one_task_store_def List_def)
  ultimately show ?thesis using nonblank r by blast
qed

subsection \<open>Toggle\<close>

lemma find_task_Some:
  "find_task tid ts = Some i \<Longrightarrow>
     i < length ts \<and> ID (ts ! i) = tid \<and> (\<forall>j<i. ID (ts ! j) \<noteq> tid)"
proof (induction ts arbitrary: i)
  case Nil
  then show ?case by simp
next
  case (Cons t ts)
  show ?case
  proof (cases "ID t = tid")
    case True
    with Cons.prems show ?thesis by simp
  next
    case False
    with Cons.prems obtain k where k: "find_task tid ts = Some k" "i = Suc k"
      by auto
    from Cons.IH [OF k(1)] False k(2) show ?thesis
      by (auto simp: less_Suc_eq_0_disj)
  qed
qed

lemma find_task_None: "find_task tid ts = None \<longleftrightarrow> tid \<notin> ID ` set ts"
  by (induction ts) auto

lemma find_task_toggled:
  "find_task tid (ts[i := (ts ! i)\<lparr>Done := b\<rparr>]) = find_task tid ts"
proof (induction ts arbitrary: i)
  case Nil
  then show ?case by simp
next
  case (Cons t ts)
  then show ?case by (cases i) simp_all
qed

lemma map_ID_toggled: "map ID (ts[i := (ts ! i)\<lparr>Done := b\<rparr>]) = map ID ts"
proof (induction ts arbitrary: i)
  case Nil
  show ?case by simp
next
  case (Cons t ts)
  then show ?case by (cases i) simp_all
qed

lemma Toggle_store:
  "find_task tid (tasks s) = Some i \<Longrightarrow>
   Toggle J io tid s d = (r, s', d') \<Longrightarrow>
   s' = s\<lparr>tasks := (tasks s)[i := (tasks s ! i)\<lparr>Done := \<not> Done (tasks s ! i)\<rparr>]\<rparr> \<and>
   r \<noteq> Inl TaskNotFound \<and> (\<forall>t. r = Inr t \<longrightarrow> t = tasks s' ! i)"
  by (auto simp: Toggle_def Let_def save_def split: prod.splits option.splits if_splits)

lemma Toggle_absent:
  "tid \<notin> ID ` set (tasks s) \<Longrightarrow> Toggle J io tid s d = (Inl TaskNotFound, s, d)"
  by (simp add: Toggle_def find_task_None [symmetric])

text \<open>
  C9. When some task has the id, \<^verbatim>\<open>Toggle\<close> changes the store at one place only: the
  \<open>Done\<close> flag of the first task with that id is negated. That task keeps its id, title
  and creation time, every other task and \<open>nextID\<close> are as before, and this holds
  whether or not the save succeeds. A second \<^verbatim>\<open>Toggle\<close> of the same id gives back the
  store it started from, so the flag has its original value.
\<close>

theorem Toggle_frame:
  assumes "tid \<in> ID ` set (tasks s)"
    and "Toggle J io tid s d = (r, s', d')"
    and "Toggle J io' tid s' d' = (r', s'', d'')"
  shows "\<exists>i<length (tasks s).
           ID (tasks s ! i) = tid \<and> (\<forall>j<i. ID (tasks s ! j) \<noteq> tid) \<and>
           length (tasks s') = length (tasks s) \<and>
           Done (tasks s' ! i) = (\<not> Done (tasks s ! i)) \<and>
           ID (tasks s' ! i) = ID (tasks s ! i) \<and>
           Title (tasks s' ! i) = Title (tasks s ! i) \<and>
           CreatedAt (tasks s' ! i) = CreatedAt (tasks s ! i) \<and>
           (\<forall>j<length (tasks s). j \<noteq> i \<longrightarrow> tasks s' ! j = tasks s ! j) \<and>
           nextID s' = nextID s \<and> dataDir s' = dataDir s \<and>
           r \<noteq> Inl TaskNotFound \<and> (\<forall>t. r = Inr t \<longrightarrow> t = tasks s' ! i) \<and>
           s'' = s"
proof -
  let ?ts = "tasks s"
  from assms(1) obtain i where found: "find_task tid ?ts = Some i"
    using find_task_None [of tid ?ts] by (cases "find_task tid ?ts") auto
  from find_task_Some [OF found]
  have i: "i < length ?ts" "ID (?ts ! i) = tid" "\<forall>j<i. ID (?ts ! j) \<noteq> tid"
    by simp_all
  note first = Toggle_store [OF found assms(2)]
  then have s1: "s' = s\<lparr>tasks := ?ts[i := (?ts ! i)\<lparr>Done := \<not> Done (?ts ! i)\<rparr>]\<rparr>"
    by simp
  have found': "find_task tid (tasks s') = Some i"
    by (simp add: s1 find_task_toggled found)
  from Toggle_store [OF found' assms(3)]
  have s2: "s'' = s'\<lparr>tasks := (tasks s')[i := (tasks s' ! i)\<lparr>Done := \<not> Done (tasks s' ! i)\<rparr>]\<rparr>"
    by simp
  have undone: "s'' = s"
    using i(1) by (simp add: s2 s1)
  have "ID (?ts ! i) = tid \<and> (\<forall>j<i. ID (?ts ! j) \<noteq> tid) \<and>
           length (tasks s') = length ?ts \<and>
           Done (tasks s' ! i) = (\<not> Done (?ts ! i)) \<and>
           ID (tasks s' ! i) = ID (?ts ! i) \<and>
           Title (tasks s' ! i) = Title (?ts ! i) \<and>
           CreatedAt (tasks s' ! i) = CreatedAt (?ts ! i) \<and>
           (\<forall>j<length ?ts. j \<noteq> i \<longrightarrow> tasks s' ! j = ?ts ! j) \<and>
           nextID s' = nextID s \<and> dataDir s' = dataDir s \<and>
           r \<noteq> Inl TaskNotFound \<and> (\<forall>t. r = Inr t \<longrightarrow> t = tasks s' ! i) \<and>
           s'' = s"
    using i first undone by (simp add: s1)
  with i(1) show ?thesis by blast
qed

theorem Toggle_frame_witness:
  "(1::int64) \<in> ID ` set (tasks one_task_store) \<and>
   Toggle plain_json SaveOK 1 one_task_store None =
     (Inr ((mk_task 1 ''Buy milk'')\<lparr>Done := True\<rparr>),
      one_task_store\<lparr>tasks := [(mk_task 1 ''Buy milk'')\<lparr>Done := True\<rparr>]\<rparr>,
      Some [(mk_task 1 ''Buy milk'')\<lparr>Done := True\<rparr>]) \<and>
   fst (snd (Toggle plain_json SaveOK 1
      (one_task_store\<lparr>tasks := [(mk_task 1 ''Buy milk'')\<lparr>Done := True\<rparr>]\<rparr>)
      (Some [(mk_task 1 ''Buy milk'')\<lparr>Done := True\<rparr>]))) = one_task_store"
proof -
  let ?s' = "one_task_store\<lparr>tasks := [(mk_task 1 ''Buy milk'')\<lparr>Done := True\<rparr>]\<rparr>"
  let ?d' = "Some [(mk_task 1 ''Buy milk'')\<lparr>Done := True\<rparr>]"
  have present: "(1::int64) \<in> ID ` set (tasks one_task_store)"
    by (simp add: one_task_store_def mk_task_def)
  have first: "Toggle plain_json SaveOK 1 one_task_store None =
      (Inr ((mk_task 1 ''Buy milk'')\<lparr>Done := True\<rparr>), ?s', ?d')"
    by (simp add: Toggle_def save_def plain_json_def one_task_store_def mk_task_def)
  obtain r' s'' d'' where second: "Toggle plain_json SaveOK 1 ?s' ?d' = (r', s'', d'')"
    by (cases "Toggle plain_json SaveOK 1 ?s' ?d'") auto
  from Toggle_frame [OF present first second] have "s'' = one_task_store" by blast
  with present first second show ?thesis by simp
qed

subsection \<open>Delete\<close>

lemma Delete_present:
  "find_task tid (tasks s) = Some i \<Longrightarrow>
   Delete J io tid s d = (r, s', d') \<Longrightarrow>
   s' = s\<lparr>tasks := take i (tasks s) @ drop (Suc i) (tasks s)\<rparr> \<and>
   (r, d') = save J io s' d \<and> r \<noteq> Some TaskNotFound"
  by (auto simp: Delete_def Let_def save_def split: prod.splits option.splits if_splits)

lemma Delete_absent:
  "tid \<notin> ID ` set (tasks s) \<Longrightarrow> Delete J io tid s d = (Some TaskNotFound, s, d)"
  by (simp add: Delete_def find_task_None [symmetric])

lemma removed_id_gone:
  assumes "distinct (map ID ts)" and "i < length ts"
  shows "ID (ts ! i) \<notin> ID ` set (take i ts @ drop (Suc i) ts)"
proof -
  have "map ID ts = map ID (take i ts) @ ID (ts ! i) # map ID (drop (Suc i) ts)"
    using assms(2) by (metis Cons_nth_drop_Suc append_take_drop_id list.simps(9) map_append)
  with assms(1) have "distinct (map ID (take i ts) @ ID (ts ! i) # map ID (drop (Suc i) ts))"
    by simp
  then show ?thesis by auto
qed

text \<open>
  C8, as amended. \<^verbatim>\<open>Delete\<close> returns \<^verbatim>\<open>"task not found"\<close> and changes nothing when no task
  has the id. Otherwise it removes the first task with that id, the other tasks keep
  their order, and the error it returns is that of the save. When the ids in the store
  are distinct, a \<^verbatim>\<open>Toggle\<close> of the same id after the removal returns
  \<^verbatim>\<open>"task not found"\<close>.
\<close>

theorem Delete_removes:
  "(tid \<notin> ID ` set (tasks s) \<longrightarrow> Delete J io tid s d = (Some TaskNotFound, s, d)) \<and>
   (tid \<in> ID ` set (tasks s) \<longrightarrow>
      (\<exists>i r s' d'. Delete J io tid s d = (r, s', d') \<and> (r, d') = save J io s' d \<and>
         r \<noteq> Some TaskNotFound \<and>
         i < length (tasks s) \<and> ID (tasks s ! i) = tid \<and> (\<forall>j<i. ID (tasks s ! j) \<noteq> tid) \<and>
         tasks s' = take i (tasks s) @ drop (Suc i) (tasks s) \<and>
         nextID s' = nextID s \<and> dataDir s' = dataDir s \<and>
         (distinct (map ID (tasks s)) \<longrightarrow>
            (\<forall>io'. Toggle J io' tid s' d' = (Inl TaskNotFound, s', d')))))"
proof (intro conjI impI)
  assume "tid \<notin> ID ` set (tasks s)"
  then show "Delete J io tid s d = (Some TaskNotFound, s, d)" by (rule Delete_absent)
next
  assume "tid \<in> ID ` set (tasks s)"
  then obtain i where found: "find_task tid (tasks s) = Some i"
    using find_task_None [of tid "tasks s"] by (cases "find_task tid (tasks s)") auto
  from find_task_Some [OF found]
  have i: "i < length (tasks s)" "ID (tasks s ! i) = tid" "\<forall>j<i. ID (tasks s ! j) \<noteq> tid"
    by simp_all
  obtain r s' d' where del: "Delete J io tid s d = (r, s', d')"
    by (cases "Delete J io tid s d") auto
  note eff = Delete_present [OF found del]
  then have s1: "s' = s\<lparr>tasks := take i (tasks s) @ drop (Suc i) (tasks s)\<rparr>" by simp
  have gone: "distinct (map ID (tasks s)) \<longrightarrow>
      (\<forall>io'. Toggle J io' tid s' d' = (Inl TaskNotFound, s', d'))"
  proof (intro impI allI)
    fix io'
    assume "distinct (map ID (tasks s))"
    from removed_id_gone [OF this i(1)] have "tid \<notin> ID ` set (tasks s')"
      by (simp add: s1 i(2))
    then show "Toggle J io' tid s' d' = (Inl TaskNotFound, s', d')" by (rule Toggle_absent)
  qed
  have "Delete J io tid s d = (r, s', d') \<and> (r, d') = save J io s' d \<and>
         r \<noteq> Some TaskNotFound \<and>
         i < length (tasks s) \<and> ID (tasks s ! i) = tid \<and> (\<forall>j<i. ID (tasks s ! j) \<noteq> tid) \<and>
         tasks s' = take i (tasks s) @ drop (Suc i) (tasks s) \<and>
         nextID s' = nextID s \<and> dataDir s' = dataDir s \<and>
         (distinct (map ID (tasks s)) \<longrightarrow>
            (\<forall>io'. Toggle J io' tid s' d' = (Inl TaskNotFound, s', d')))"
    using del eff i gone by (simp add: s1)
  then show "\<exists>i r s' d'. Delete J io tid s d = (r, s', d') \<and> (r, d') = save J io s' d \<and>
         r \<noteq> Some TaskNotFound \<and>
         i < length (tasks s) \<and> ID (tasks s ! i) = tid \<and> (\<forall>j<i. ID (tasks s ! j) \<noteq> tid) \<and>
         tasks s' = take i (tasks s) @ drop (Suc i) (tasks s) \<and>
         nextID s' = nextID s \<and> dataDir s' = dataDir s \<and>
         (distinct (map ID (tasks s)) \<longrightarrow>
            (\<forall>io'. Toggle J io' tid s' d' = (Inl TaskNotFound, s', d')))"
    by blast
qed

theorem Delete_removes_witness:
  "(9::int64) \<notin> ID ` set (tasks one_task_store) \<and>
   Delete plain_json SaveOK 9 one_task_store None = (Some TaskNotFound, one_task_store, None) \<and>
   (1::int64) \<in> ID ` set (tasks one_task_store) \<and>
   distinct (map ID (tasks one_task_store)) \<and>
   Delete plain_json SaveOK 1 one_task_store None =
     (None, one_task_store\<lparr>tasks := []\<rparr>, Some []) \<and>
   Toggle plain_json SaveOK 1 (one_task_store\<lparr>tasks := []\<rparr>) (Some []) =
     (Inl TaskNotFound, one_task_store\<lparr>tasks := []\<rparr>, Some [])"
proof -
  have absent: "(9::int64) \<notin> ID ` set (tasks one_task_store)"
    by (simp add: one_task_store_def mk_task_def)
  have present: "(1::int64) \<in> ID ` set (tasks one_task_store)"
    by (simp add: one_task_store_def mk_task_def)
  have dist: "distinct (map ID (tasks one_task_store))"
    by (simp add: one_task_store_def)
  have del: "Delete plain_json SaveOK 1 one_task_store None =
      (None, one_task_store\<lparr>tasks := []\<rparr>, Some [])"
    by (simp add: Delete_def save_def plain_json_def one_task_store_def mk_task_def)
  from Delete_removes [of 9 one_task_store plain_json SaveOK None] absent
  have nf: "Delete plain_json SaveOK 9 one_task_store None =
      (Some TaskNotFound, one_task_store, None)"
    by blast
  from Delete_removes [of 1 one_task_store plain_json SaveOK None] present dist del
  have "Toggle plain_json SaveOK 1 (one_task_store\<lparr>tasks := []\<rparr>) (Some []) =
      (Inl TaskNotFound, one_task_store\<lparr>tasks := []\<rparr>, Some [])"
    by auto
  with absent present dist del nf show ?thesis by blast
qed

text \<open>
  Without distinct ids the last part fails: a data file with two tasks of id 1 loads, the
  \<^verbatim>\<open>Delete\<close> of 1 succeeds and removes the first of them, and the \<^verbatim>\<open>Toggle\<close> of 1 that
  follows finds the second.
\<close>

theorem Delete_then_Toggle_counterexample:
  "NewTaskStore plain_json LoadOK ''data'' (Some [mk_task 1 ''a'', mk_task 1 ''b'']) =
     Inr dup_store \<and>
   Delete plain_json SaveOK 1 dup_store (Some [mk_task 1 ''a'', mk_task 1 ''b'']) =
     (None, dup_store\<lparr>tasks := [mk_task 1 ''b'']\<rparr>, Some [mk_task 1 ''b'']) \<and>
   Toggle plain_json SaveOK 1 (dup_store\<lparr>tasks := [mk_task 1 ''b'']\<rparr>) (Some [mk_task 1 ''b'']) =
     (Inr ((mk_task 1 ''b'')\<lparr>Done := True\<rparr>),
      dup_store\<lparr>tasks := [(mk_task 1 ''b'')\<lparr>Done := True\<rparr>]\<rparr>,
      Some [(mk_task 1 ''b'')\<lparr>Done := True\<rparr>]) \<and>
   fst (Toggle plain_json SaveOK 1 (dup_store\<lparr>tasks := [mk_task 1 ''b'']\<rparr>)
          (Some [mk_task 1 ''b''])) \<noteq> Inl TaskNotFound"
  by (simp add: NewTaskStore_def load_def Delete_def Toggle_def save_def plain_json_def
        dup_store_def mk_task_def word_sless_alt)

subsection \<open>Arithmetic of ids\<close>

lemma sint_range: "- (2 ^ 63) \<le> sint x \<and> sint x < 2 ^ 63" for x :: int64
  using sint_ge [of x] sint_lt [of x] by simp

lemma sint_succ:
  fixes x :: int64
  assumes "sint x < 2 ^ 63 - 1"
  shows "sint (x + 1) = sint x + 1"
proof -
  have lo: "- (2 ^ 63) \<le> sint x" using sint_range [of x] by simp
  have "sint (x + 1) = signed_take_bit 63 (sint x + 1)"
    by (simp add: sint_word_ariths)
  also have "\<dots> = sint x + 1"
    using lo assms by (intro signed_take_bit_int_eq_self) simp_all
  finally show ?thesis .
qed

lemma sint_eq_iff: "sint x = sint y \<longleftrightarrow> x = y" for x y :: int64
  by (auto intro: signed_word_eqI)

lemma sint_MaxInt64: "sint MaxInt64 = 2 ^ 63 - 1"
  by (simp add: MaxInt64_def)

lemma not_MaxInt64: "x \<noteq> MaxInt64 \<longleftrightarrow> sint x < 2 ^ 63 - 1"
  using sint_range [of x] sint_eq_iff [of x MaxInt64] by (auto simp: sint_MaxInt64)

subsection \<open>load\<close>

lemma maxID_loop_ge: "sint m \<le> sint (maxID_loop m ts)"
proof (induction ts arbitrary: m)
  case Nil
  show ?case by simp
next
  case (Cons t ts)
  show ?case
    using Cons.IH [of "ID t"] Cons.IH [of m] by (auto simp: word_sless_alt)
qed

lemma maxID_loop_upper: "t \<in> set ts \<Longrightarrow> sint (ID t) \<le> sint (maxID_loop m ts)"
proof (induction ts arbitrary: m)
  case Nil
  then show ?case by simp
next
  case (Cons u ts)
  show ?case
  proof (cases "t = u")
    case True
    have "sint (ID u) \<le> sint (if m <s ID u then ID u else m)"
      by (auto simp: word_sless_alt)
    also have "\<dots> \<le> sint (maxID_loop (if m <s ID u then ID u else m) ts)"
      by (rule maxID_loop_ge)
    finally show ?thesis using True by simp
  next
    case False
    with Cons.prems have "t \<in> set ts" by simp
    from Cons.IH [OF this] show ?thesis by simp
  qed
qed

lemma maxID_loop_mem: "maxID_loop m ts = m \<or> maxID_loop m ts \<in> ID ` set ts"
proof (induction ts arbitrary: m)
  case Nil
  show ?case by simp
next
  case (Cons t ts)
  show ?case
    using Cons.IH [of "ID t"] Cons.IH [of m] by auto
qed

lemma maxID_loop_top:
  assumes t: "t \<in> set ts" and top: "\<forall>u\<in>set ts. ID u \<le>s ID t"
  shows "maxID_loop 0 ts = (if 0 \<le>s ID t then ID t else 0)"
proof (cases "0 \<le> sint (ID t)")
  case True
  have up: "sint (ID t) \<le> sint (maxID_loop 0 ts)" by (rule maxID_loop_upper [OF t])
  have "sint (maxID_loop 0 ts) \<le> sint (ID t)"
    using maxID_loop_mem [of 0 ts] top True by (auto simp: word_sle_eq)
  with up have "maxID_loop 0 ts = ID t" by (simp add: sint_eq_iff [symmetric])
  with True show ?thesis by (simp add: word_sle_eq)
next
  case False
  have "maxID_loop 0 ts \<notin> ID ` set ts"
  proof
    assume "maxID_loop 0 ts \<in> ID ` set ts"
    then have "sint (maxID_loop 0 ts) \<le> sint (ID t)" using top by (auto simp: word_sle_eq)
    moreover have "sint (0::int64) \<le> sint (maxID_loop 0 ts)" by (rule maxID_loop_ge)
    ultimately show False using False by simp
  qed
  then have "maxID_loop 0 ts = 0" using maxID_loop_mem [of 0 ts] by simp
  with False show ?thesis by (simp add: word_sle_eq)
qed

lemma next_of_top:
  assumes t: "t \<in> set ts" and top: "\<forall>u\<in>set ts. ID u \<le>s ID t"
  shows "(if maxID_loop 0 ts + 1 <s 1 then 1 else maxID_loop 0 ts + 1) =
         (if ID t + 1 <s 1 then 1 else ID t + 1)"
proof (cases "0 \<le>s ID t")
  case True
  then show ?thesis by (simp add: maxID_loop_top [OF t top])
next
  case False
  then have neg: "sint (ID t) < 0" by (simp add: word_sle_eq)
  then have "sint (ID t + 1) = sint (ID t) + 1" by (intro sint_succ) simp
  with neg have "ID t + 1 <s 1" by (simp add: word_sless_alt)
  with False show ?thesis by (simp add: maxID_loop_top [OF t top])
qed

lemma clamp_ge_1: "1 \<le>s (if n + 1 <s 1 then 1 else n + 1)" for n :: int64
  by (simp add: word_sle_eq word_sless_alt)

lemma clamp_sint:
  "n \<noteq> MaxInt64 \<Longrightarrow> sint (if n + 1 <s 1 then 1 else n + 1) = max 1 (sint n + 1)" for n :: int64
  using sint_succ [of n] by (auto simp: not_MaxInt64 word_sless_alt)

lemma load_present:
  "Decode J f = Some ts \<Longrightarrow>
   NewTaskStore J LoadOK dir (Some f) =
     Inr \<lparr>tasks = ts,
          nextID = (if maxID_loop 0 ts + 1 <s 1 then 1 else maxID_loop 0 ts + 1),
          dataDir = dir\<rparr>"
  by (simp add: NewTaskStore_def load_def Let_def)

lemma load_top:
  assumes dec: "Decode J f = Some ts"
  shows "\<exists>n. NewTaskStore J LoadOK dir (Some f) = Inr \<lparr>tasks = ts, nextID = n, dataDir = dir\<rparr> \<and>
           1 \<le>s n \<and> (ts = [] \<longrightarrow> n = 1) \<and>
           (\<forall>t\<in>set ts. (\<forall>u\<in>set ts. ID u \<le>s ID t) \<and> ID t \<noteq> MaxInt64 \<longrightarrow>
              sint n = max 1 (sint (ID t) + 1))"
proof -
  let ?n = "if maxID_loop 0 ts + 1 <s 1 then 1 else maxID_loop 0 ts + 1"
  have "NewTaskStore J LoadOK dir (Some f) = Inr \<lparr>tasks = ts, nextID = ?n, dataDir = dir\<rparr>"
    by (rule load_present [OF dec])
  moreover have "1 \<le>s ?n" by (rule clamp_ge_1)
  moreover have "ts = [] \<longrightarrow> ?n = 1" by simp
  moreover have "\<forall>t\<in>set ts. (\<forall>u\<in>set ts. ID u \<le>s ID t) \<and> ID t \<noteq> MaxInt64 \<longrightarrow>
            sint ?n = max 1 (sint (ID t) + 1)"
  proof (intro ballI impI)
    fix t
    assume t: "t \<in> set ts" and h: "(\<forall>u\<in>set ts. ID u \<le>s ID t) \<and> ID t \<noteq> MaxInt64"
    then have top: "\<forall>u\<in>set ts. ID u \<le>s ID t" and nomax: "ID t \<noteq> MaxInt64" by simp_all
    have "?n = (if ID t + 1 <s 1 then 1 else ID t + 1)" by (rule next_of_top [OF t top])
    then show "sint ?n = max 1 (sint (ID t) + 1)"
      using clamp_sint [OF nomax] by simp
  qed
  ultimately show ?thesis by blast
qed

text \<open>
  C6, as amended. With no failing system call, \<^verbatim>\<open>NewTaskStore\<close> over an absent data
  file gives the empty sequence and \<open>nextID = 1\<close>; over a file that does not decode it
  fails with \<^verbatim>\<open>"decode tasks file"\<close>; over a file that decodes to \<open>ts\<close> it gives \<open>ts\<close>
  and a \<open>nextID\<close> that is at least 1, is 1 when \<open>ts\<close> is empty, and is one greater than
  the largest id of \<open>ts\<close>, with a minimum of 1, when that id is not the largest
  \<^verbatim>\<open>int\<close>. The values are those of the integers, not of the wrapping addition.
\<close>

theorem load_nextID:
  "NewTaskStore J LoadOK dir None = Inr \<lparr>tasks = [], nextID = 1, dataDir = dir\<rparr> \<and>
   (Decode J f = None \<longrightarrow> NewTaskStore J LoadOK dir (Some f) = Inl (Persist DecodeTasksFile)) \<and>
   (Decode J f = Some ts \<longrightarrow>
      (\<exists>n. NewTaskStore J LoadOK dir (Some f) = Inr \<lparr>tasks = ts, nextID = n, dataDir = dir\<rparr> \<and>
         1 \<le>s n \<and> (ts = [] \<longrightarrow> n = 1) \<and>
         (\<forall>t\<in>set ts. (\<forall>u\<in>set ts. ID u \<le>s ID t) \<and> ID t \<noteq> MaxInt64 \<longrightarrow>
            sint n = max 1 (sint (ID t) + 1))))"
proof (intro conjI impI)
  show "NewTaskStore J LoadOK dir None = Inr \<lparr>tasks = [], nextID = 1, dataDir = dir\<rparr>"
    by (simp add: NewTaskStore_def load_def)
next
  assume "Decode J f = None"
  then show "NewTaskStore J LoadOK dir (Some f) = Inl (Persist DecodeTasksFile)"
    by (simp add: NewTaskStore_def load_def)
next
  assume "Decode J f = Some ts"
  then show "\<exists>n. NewTaskStore J LoadOK dir (Some f) =
         Inr \<lparr>tasks = ts, nextID = n, dataDir = dir\<rparr> \<and>
         1 \<le>s n \<and> (ts = [] \<longrightarrow> n = 1) \<and>
         (\<forall>t\<in>set ts. (\<forall>u\<in>set ts. ID u \<le>s ID t) \<and> ID t \<noteq> MaxInt64 \<longrightarrow>
            sint n = max 1 (sint (ID t) + 1))"
    by (rule load_top)
qed

theorem load_nextID_witness:
  "Decode plain_json tasks_3_7_2 = Some tasks_3_7_2 \<and>
   map ID tasks_3_7_2 = [3, 7, 2] \<and> (3 :: int64) \<le>s 7 \<and> (2 :: int64) \<le>s 7 \<and>
   (7 :: int64) \<noteq> MaxInt64 \<and>
   NewTaskStore plain_json LoadOK ''data'' (Some tasks_3_7_2) =
     Inr \<lparr>tasks = tasks_3_7_2, nextID = 8, dataDir = ''data''\<rparr> \<and>
   NewTaskStore plain_json LoadOK ''data'' None =
     Inr \<lparr>tasks = [], nextID = 1, dataDir = ''data''\<rparr>"
proof -
  have dec: "Decode plain_json tasks_3_7_2 = Some tasks_3_7_2"
    by (simp add: plain_json_def)
  have mem: "mk_task 7 ''b'' \<in> set tasks_3_7_2"
    by (simp add: tasks_3_7_2_def)
  have top: "\<forall>u\<in>set tasks_3_7_2. ID u \<le>s ID (mk_task 7 ''b'')"
    by (simp add: tasks_3_7_2_def mk_task_def word_sle_eq)
  have nomax: "ID (mk_task 7 ''b'') \<noteq> MaxInt64"
    by (simp add: mk_task_def MaxInt64_def)
  note inst = load_nextID [of plain_json "''data''" tasks_3_7_2 tasks_3_7_2]
  from inst dec
  obtain n where st: "NewTaskStore plain_json LoadOK ''data'' (Some tasks_3_7_2) =
        Inr \<lparr>tasks = tasks_3_7_2, nextID = n, dataDir = ''data''\<rparr>"
    and n: "\<forall>t\<in>set tasks_3_7_2. (\<forall>u\<in>set tasks_3_7_2. ID u \<le>s ID t) \<and> ID t \<noteq> MaxInt64 \<longrightarrow>
            sint n = max 1 (sint (ID t) + 1)"
    by blast
  from n mem top nomax have "sint n = max 1 (sint (ID (mk_task 7 ''b'')) + 1)" by blast
  then have "sint n = sint (8 :: int64)" by (simp add: mk_task_def)
  then have "n = 8" by (simp only: sint_eq_iff)
  moreover have "map ID tasks_3_7_2 = [3, 7, 2] \<and> (3 :: int64) \<le>s 7 \<and> (2 :: int64) \<le>s 7 \<and>
      (7 :: int64) \<noteq> MaxInt64"
    by (simp add: tasks_3_7_2_def mk_task_def word_sle_eq MaxInt64_def)
  moreover from inst
  have "NewTaskStore plain_json LoadOK ''data'' None =
      Inr \<lparr>tasks = [], nextID = 1, dataDir = ''data''\<rparr>"
    by blast
  ultimately show ?thesis using dec st by simp
qed

text \<open>
  For a largest id equal to the largest \<^verbatim>\<open>int\<close> the sum wraps around and the guard of
  \<^verbatim>\<open>load\<close> sets \<open>nextID\<close> to 1, which is neither one greater than that id nor above it.
\<close>

theorem load_nextID_counterexample:
  "Decode plain_json (tasks top_store) = Some (tasks top_store) \<and>
   NewTaskStore plain_json LoadOK ''data'' (Some (tasks top_store)) = Inr top_store \<and>
   map ID (tasks top_store) = [MaxInt64] \<and>
   nextID top_store = 1 \<and>
   sint (1 :: int64) \<noteq> max 1 (sint MaxInt64 + 1) \<and>
   (1 :: int64) <s MaxInt64"
  by (simp add: NewTaskStore_def load_def plain_json_def top_store_def mk_task_def
        MaxInt64_def word_sless_alt)

subsection \<open>save, then load\<close>

lemma coerceUTF8_valid: "validUTF8 s \<Longrightarrow> coerceUTF8 s = s"
proof (induction s rule: coerceUTF8.induct)
  case (1 s)
  show ?case
  proof (cases "s = []")
    case True
    then show ?thesis by (simp add: coerceUTF8.simps [of "[]"])
  next
    case False
    from "1.prems" False have w: "runeWidth s \<noteq> 0" and rest: "validUTF8 (drop (runeWidth s) s)"
      by (auto simp: validUTF8.simps [of s] split: if_splits)
    from "1.IH"(2) [OF False w rest] False w show ?thesis
      by (simp add: coerceUTF8.simps [of s])
  qed
qed

lemma coerceTask_valid: "\<forall>t\<in>set ts. validUTF8 (Title t) \<Longrightarrow> map coerceTask ts = ts"
  by (induction ts) (simp_all add: coerceTask_def coerceUTF8_valid)

lemma go_json_roundtrip:
  assumes "Encode (go_json marshals) ts = Some f" and "\<forall>t\<in>set ts. validUTF8 (Title t)"
  shows "f = TaskArray ts \<and> Decode (go_json marshals) f = Some ts"
  using assms by (auto simp: go_json_def coerceTask_valid split: if_splits)

text \<open>
  C2, as amended. Take a store whose titles are valid UTF-8. When \<^verbatim>\<open>save\<close> succeeds, a
  fresh store over the same directory has the same task sequence, in the same order and
  with the same field values, and a \<open>nextID\<close> that is at least 1, is 1 for the empty
  sequence, and is the largest id plus one, with a minimum of 1, when that id is not the
  largest \<^verbatim>\<open>int\<close>.
\<close>

theorem save_load_roundtrip:
  assumes "save (go_json marshals) io s d = (None, d')"
    and "\<forall>t\<in>set (tasks s). validUTF8 (Title t)"
  shows "\<exists>n. NewTaskStore (go_json marshals) LoadOK (dataDir s) d' =
             Inr \<lparr>tasks = tasks s, nextID = n, dataDir = dataDir s\<rparr> \<and>
           1 \<le>s n \<and> (tasks s = [] \<longrightarrow> n = 1) \<and>
           (\<forall>t\<in>set (tasks s). (\<forall>u\<in>set (tasks s). ID u \<le>s ID t) \<and> ID t \<noteq> MaxInt64 \<longrightarrow>
              sint n = max 1 (sint (ID t) + 1))"
proof -
  from save_ok [OF assms(1)]
  obtain f where f: "Encode (go_json marshals) (tasks s) = Some f" "d' = Some f"
    by blast
  from go_json_roundtrip [OF f(1) assms(2)]
  have dec: "Decode (go_json marshals) f = Some (tasks s)" by blast
  show ?thesis unfolding f(2) by (rule load_top [OF dec])
qed

theorem save_load_roundtrip_witness:
  "save (go_json every_time) SaveOK \<lparr>tasks = tasks_3_7_2, nextID = 11, dataDir = ''data''\<rparr> None =
     (None, Some (TaskArray tasks_3_7_2)) \<and>
   list_all validUTF8 (map Title tasks_3_7_2) \<and>
   map ID tasks_3_7_2 = [3, 7, 2] \<and> (3 :: int64) \<le>s 7 \<and> (2 :: int64) \<le>s 7 \<and>
   (7 :: int64) \<noteq> MaxInt64 \<and>
   NewTaskStore (go_json every_time) LoadOK ''data'' (Some (TaskArray tasks_3_7_2)) =
     Inr \<lparr>tasks = tasks_3_7_2, nextID = 8, dataDir = ''data''\<rparr>"
proof -
  let ?s = "\<lparr>tasks = tasks_3_7_2, nextID = 11, dataDir = ''data''\<rparr>"
  have sv: "save (go_json every_time) SaveOK ?s None = (None, Some (TaskArray tasks_3_7_2))"
    by code_simp
  have valid: "list_all validUTF8 (map Title tasks_3_7_2)" by code_simp
  then have valid': "\<forall>t\<in>set (tasks ?s). validUTF8 (Title t)"
    by (simp add: list_all_iff)
  have mem: "mk_task 7 ''b'' \<in> set (tasks ?s)"
    by (simp add: tasks_3_7_2_def)
  have top: "\<forall>u\<in>set (tasks ?s). ID u \<le>s ID (mk_task 7 ''b'')"
    by (simp add: tasks_3_7_2_def mk_task_def word_sle_eq)
  have nomax: "ID (mk_task 7 ''b'') \<noteq> MaxInt64"
    by (simp add: mk_task_def MaxInt64_def)
  from save_load_roundtrip [OF sv valid']
  obtain n where st: "NewTaskStore (go_json every_time) LoadOK (dataDir ?s)
        (Some (TaskArray tasks_3_7_2)) =
        Inr \<lparr>tasks = tasks ?s, nextID = n, dataDir = dataDir ?s\<rparr>"
    and n: "\<forall>t\<in>set (tasks ?s). (\<forall>u\<in>set (tasks ?s). ID u \<le>s ID t) \<and> ID t \<noteq> MaxInt64 \<longrightarrow>
              sint n = max 1 (sint (ID t) + 1)"
    by blast
  from n mem top nomax have "sint n = max 1 (sint (ID (mk_task 7 ''b'')) + 1)" by blast
  then have "sint n = sint (8 :: int64)" by (simp add: mk_task_def)
  then have "n = 8" by (simp only: sint_eq_iff)
  moreover have "map ID tasks_3_7_2 = [3, 7, 2] \<and> (3 :: int64) \<le>s 7 \<and> (2 :: int64) \<le>s 7 \<and>
      (7 :: int64) \<noteq> MaxInt64"
    by (simp add: tasks_3_7_2_def mk_task_def word_sle_eq MaxInt64_def)
  ultimately show ?thesis using sv valid st by simp
qed

text \<open>
  Each of the three conditions is needed. The store that \<^verbatim>\<open>Create\<close> makes for the title
  of the one byte FF is saved with the title U+FFFD and reloads with that title, not the
  one in the store. The store loaded from a file whose only id is -5 has \<open>nextID = 1\<close>,
  not -4. The store loaded from a file whose id is the largest \<^verbatim>\<open>int\<close> has
  \<open>nextID = 1\<close>. Saving either and loading again gives the same store.
\<close>

theorem save_load_counterexample:
  "Create (go_json every_time) SaveOK 0 [CHR 0xFF] empty_store None =
     (Inr (mk_task 1 [CHR 0xFF]), bad_title_store,
      Some (TaskArray [mk_task 1 [CHR 0xEF, CHR 0xBF, CHR 0xBD]])) \<and>
   save (go_json every_time) SaveOK bad_title_store None =
     (None, Some (TaskArray [mk_task 1 [CHR 0xEF, CHR 0xBF, CHR 0xBD]])) \<and>
   NewTaskStore (go_json every_time) LoadOK ''data''
       (Some (TaskArray [mk_task 1 [CHR 0xEF, CHR 0xBF, CHR 0xBD]])) =
     Inr \<lparr>tasks = [mk_task 1 [CHR 0xEF, CHR 0xBF, CHR 0xBD]], nextID = 2, dataDir = ''data''\<rparr> \<and>
   tasks bad_title_store \<noteq> [mk_task 1 [CHR 0xEF, CHR 0xBF, CHR 0xBD]] \<and>
   NewTaskStore (go_json every_time) LoadOK ''data'' (Some (TaskArray [mk_task (- 5) ''x''])) =
     Inr neg_store \<and>
   save (go_json every_time) SaveOK neg_store None =
     (None, Some (TaskArray [mk_task (- 5) ''x''])) \<and>
   nextID neg_store \<noteq> - 5 + 1 \<and>
   NewTaskStore (go_json every_time) LoadOK ''data'' (Some (TaskArray (tasks top_store))) =
     Inr top_store \<and>
   save (go_json every_time) SaveOK top_store None =
     (None, Some (TaskArray (tasks top_store))) \<and>
   map ID (tasks top_store) = [MaxInt64] \<and>
   nextID top_store \<noteq> MaxInt64 + 1 \<and>
   sint (nextID top_store) \<noteq> max 1 (sint MaxInt64 + 1)"
  by code_simp

subsection \<open>Ids over sequences of requests\<close>

lemma Toggle_cases:
  "Toggle J io tid s d = (r, s', d') \<Longrightarrow>
     nextID s' = nextID s \<and> map ID (tasks s') = map ID (tasks s)"
  by (auto simp: Toggle_def Let_def map_ID_toggled split: option.splits prod.splits)

lemma Delete_cases:
  "Delete J io tid s d = (r, s', d') \<Longrightarrow>
     nextID s' = nextID s \<and>
     (tasks s' = tasks s \<or> (\<exists>i. tasks s' = take i (tasks s) @ drop (Suc i) (tasks s)))"
  by (auto simp: Delete_def Let_def split: option.splits prod.splits)

lemma apply_op_ids:
  assumes "apply_op J x s d = (ids, s', d')" and "sint (nextID s) < 2 ^ 63 - 1"
  shows "length ids \<le> 1 \<and>
         sint (nextID s) \<le> sint (nextID s') \<and> sint (nextID s') \<le> sint (nextID s) + 1 \<and>
         (\<forall>i\<in>set ids. sint (nextID s) \<le> sint i \<and> sint i < sint (nextID s'))"
proof (cases x)
  case (OpCreate io now title)
  obtain r where c: "Create J io now title s d = (r, s', d')"
    using assms(1) OpCreate by (auto split: prod.splits sum.splits)
  have ids: "ids = (case r of Inr task \<Rightarrow> [ID task] | Inl e \<Rightarrow> [])"
    using assms(1) OpCreate c by (auto split: sum.splits)
  from Create_cases [OF c] show ?thesis
    using ids sint_succ [OF assms(2)] by auto
next
  case (OpToggle io tid)
  then obtain r where "Toggle J io tid s d = (r, s', d')" and "ids = []"
    using assms(1) by (auto split: prod.splits)
  then show ?thesis using Toggle_cases by fastforce
next
  case (OpDelete io tid)
  then obtain r where "Delete J io tid s d = (r, s', d')" and "ids = []"
    using assms(1) by (auto split: prod.splits)
  then show ?thesis using Delete_cases by fastforce
qed

lemma run_ids:
  "run J xs s d = (ids, s', d') \<Longrightarrow> sint (nextID s) + int (length xs) < 2 ^ 63 \<Longrightarrow>
     sint (nextID s) \<le> sint (nextID s') \<and>
     sint (nextID s') \<le> sint (nextID s) + int (length xs) \<and>
     sorted_wrt (\<lambda>a b. sint a < sint b) ids \<and>
     (\<forall>i\<in>set ids. sint (nextID s) \<le> sint i \<and> sint i < sint (nextID s'))"
proof (induction xs arbitrary: s d ids)
  case Nil
  then show ?case by simp
next
  case (Cons x xs)
  obtain ids1 s1 d1 where step: "apply_op J x s d = (ids1, s1, d1)"
    by (cases "apply_op J x s d") auto
  obtain ids2 where rest: "run J xs s1 d1 = (ids2, s', d')" and ids: "ids = ids1 @ ids2"
    using Cons.prems(1) step by (auto split: prod.splits)
  have small: "sint (nextID s) < 2 ^ 63 - 1" using Cons.prems(2) by simp
  note a = apply_op_ids [OF step small]
  have "sint (nextID s1) + int (length xs) < 2 ^ 63" using a Cons.prems(2) by simp
  note b = Cons.IH [OF rest this]
  have "sorted_wrt (\<lambda>a b. sint a < sint b) ids1"
    using a by (cases ids1) auto
  then have "sorted_wrt (\<lambda>a b. sint a < sint b) (ids1 @ ids2)"
    using a b by (fastforce simp: sorted_wrt_append)
  then show ?case using a b ids by auto
qed

lemma strictly_sorted_distinct:
  "sorted_wrt (\<lambda>a b. sint a < sint b) (ids :: int64 list) \<Longrightarrow> distinct ids"
  by (induction ids) auto

text \<open>
  C1, as amended. Take any store and any sequence of \<open>n\<close> requests with
  \<open>nextID + n\<close> not above the largest \<^verbatim>\<open>int\<close>. The ids returned by the calls of
  \<^verbatim>\<open>Create\<close> that succeed are strictly increasing in the order of the calls, hence no id
  is returned twice, whatever tasks were deleted in between; each of them lies between
  the \<open>nextID\<close> before and the \<open>nextID\<close> after.
\<close>

theorem ids_strictly_increasing:
  assumes "sint (nextID s) + int (length xs) < 2 ^ 63"
    and "run J xs s d = (ids, s', d')"
  shows "sorted_wrt (\<lambda>a b. a <s b) ids \<and> distinct ids \<and>
         (\<forall>i\<in>set ids. nextID s \<le>s i \<and> i <s nextID s')"
proof -
  note r = run_ids [OF assms(2,1)]
  then have "sorted_wrt (\<lambda>a b. sint a < sint b) ids" by simp
  moreover from this have "distinct ids" by (rule strictly_sorted_distinct)
  moreover have "(\<lambda>a b :: int64. a <s b) = (\<lambda>a b. sint a < sint b)"
    by (simp add: word_sless_alt fun_eq_iff)
  ultimately show ?thesis using r by (simp add: word_sle_eq word_sless_alt)
qed

theorem ids_strictly_increasing_witness:
  "sint (nextID one_task_store) +
     int (length [OpCreate SaveOK 0 ''a'', OpDelete SaveOK 2, OpCreate CloseErr 0 ''b'',
                  OpToggle SaveOK 1, OpCreate SaveOK 0 ''c'']) < 2 ^ 63 \<and>
   fst (run plain_json
          [OpCreate SaveOK 0 ''a'', OpDelete SaveOK 2, OpCreate CloseErr 0 ''b'',
           OpToggle SaveOK 1, OpCreate SaveOK 0 ''c''] one_task_store None) = [2, 4] \<and>
   sorted_wrt (\<lambda>a b. a <s b) [2, 4 :: int64] \<and> distinct [2, 4 :: int64]"
proof -
  let ?xs = "[OpCreate SaveOK 0 ''a'', OpDelete SaveOK 2, OpCreate CloseErr 0 ''b'',
              OpToggle SaveOK 1, OpCreate SaveOK 0 ''c'']"
  have bound: "sint (nextID one_task_store) + int (length ?xs) < 2 ^ 63"
    by (simp add: one_task_store_def)
  have ids: "fst (run plain_json ?xs one_task_store None) = [2, 4]"
    by code_simp
  obtain s' d' where r: "run plain_json ?xs one_task_store None = ([2, 4], s', d')"
    using ids by (cases "run plain_json ?xs one_task_store None") auto
  from ids_strictly_increasing [OF bound r]
  have "sorted_wrt (\<lambda>a b. a <s b) [2, 4 :: int64] \<and> distinct [2, 4 :: int64]" by blast
  with bound ids show ?thesis by blast
qed

text \<open>
  At the largest \<^verbatim>\<open>int\<close> the counter wraps around: over a data file whose task has id
  \<open>2\<^sup>6\<^sup>3 - 2\<close>, two calls of \<^verbatim>\<open>Create\<close> return the ids \<open>2\<^sup>6\<^sup>3 - 1\<close> and \<open>- 2\<^sup>6\<^sup>3\<close>.
\<close>

theorem ids_increasing_counterexample:
  "NewTaskStore plain_json LoadOK ''data'' (Some [mk_task 0x7FFFFFFFFFFFFFFE ''old'']) =
     Inr near_max_store \<and>
   fst (run plain_json [OpCreate SaveOK 0 ''a'', OpCreate SaveOK 0 ''b''] near_max_store
          (Some [mk_task 0x7FFFFFFFFFFFFFFE ''old''])) = [MaxInt64, MinInt64] \<and>
   \<not> sorted_wrt (\<lambda>a b. a <s b) [MaxInt64, MinInt64]"
proof -
  have "NewTaskStore plain_json LoadOK ''data'' (Some [mk_task 0x7FFFFFFFFFFFFFFE ''old'']) =
     Inr near_max_store"
    by (simp add: NewTaskStore_def load_def plain_json_def near_max_store_def mk_task_def
          word_sless_alt)
  moreover have "fst (run plain_json [OpCreate SaveOK 0 ''a'', OpCreate SaveOK 0 ''b'']
          near_max_store (Some [mk_task 0x7FFFFFFFFFFFFFFE ''old''])) = [MaxInt64, MinInt64]"
    by code_simp
  moreover have "\<not> sorted_wrt (\<lambda>a b. a <s b) [MaxInt64, MinInt64]"
    by (simp add: MaxInt64_def MinInt64_def word_sless_alt)
  ultimately show ?thesis by blast
qed

subsection \<open>Distinct ids\<close>

lemma ids_ok_Create:
  assumes ok: "ids_ok s" and small: "sint (nextID s) < 2 ^ 63 - 1"
    and c: "Create J io now title s d = (r, s', d')"
  shows "ids_ok s'"
proof -
  from Create_cases [OF c] consider "s' = s"
    | "s' = s\<lparr>nextID := nextID s + 1,
             tasks := tasks s @
               [\<lparr>ID = nextID s, Title = TrimSpace title, Done = False, CreatedAt = now\<rparr>]\<rparr>"
    by blast
  then show ?thesis
  proof cases
    case 1
    with ok show ?thesis by simp
  next
    case 2
    have below: "\<forall>t\<in>set (tasks s). sint (ID t) < sint (nextID s)"
      using ok by (simp add: ids_ok_def word_sless_alt)
    then have fresh: "nextID s \<notin> ID ` set (tasks s)" by auto
    have "sint (nextID s + 1) = sint (nextID s) + 1" by (rule sint_succ [OF small])
    with below have "\<forall>t\<in>set (tasks s). sint (ID t) < sint (nextID s + 1)" by auto
    with ok fresh show ?thesis
      using sint_succ [OF small] by (simp add: 2 ids_ok_def word_sless_alt)
  qed
qed

lemma ids_ok_Toggle:
  assumes ok: "ids_ok s" and c: "Toggle J io tid s d = (r, s', d')"
  shows "ids_ok s'"
proof -
  from Toggle_cases [OF c] have n: "nextID s' = nextID s"
    and m: "map ID (tasks s') = map ID (tasks s)" by simp_all
  from m have img: "ID ` set (tasks s') = ID ` set (tasks s)" by (metis set_map)
  have "\<forall>t\<in>set (tasks s'). ID t <s nextID s"
  proof
    fix t
    assume "t \<in> set (tasks s')"
    then have "ID t \<in> ID ` set (tasks s)" using img by blast
    then show "ID t <s nextID s" using ok by (auto simp: ids_ok_def)
  qed
  with ok n m show ?thesis by (simp add: ids_ok_def)
qed

lemma distinct_remove_nth: "distinct xs \<Longrightarrow> distinct (take i xs @ drop (Suc i) xs)"
  by (simp add: set_take_disj_set_drop_if_distinct)

lemma ids_ok_Delete:
  assumes ok: "ids_ok s" and c: "Delete J io tid s d = (r, s', d')"
  shows "ids_ok s'"
proof -
  from Delete_cases [OF c] have n: "nextID s' = nextID s" by simp
  from Delete_cases [OF c] consider "tasks s' = tasks s"
    | i where "tasks s' = take i (tasks s) @ drop (Suc i) (tasks s)"
    by blast
  then show ?thesis
  proof cases
    case 1
    with ok n show ?thesis by (simp add: ids_ok_def)
  next
    case 2
    have "distinct (take i (map ID (tasks s)) @ drop (Suc i) (map ID (tasks s)))"
      using ok by (intro distinct_remove_nth) (simp add: ids_ok_def)
    then have "distinct (map ID (tasks s'))" by (simp add: 2 take_map drop_map)
    moreover have "set (tasks s') \<subseteq> set (tasks s)"
      using set_take_subset [of i "tasks s"] set_drop_subset [of "Suc i" "tasks s"]
      by (auto simp: 2)
    ultimately show ?thesis using ok n by (auto simp: ids_ok_def)
  qed
qed

lemma ids_ok_apply_op:
  assumes "ids_ok s" and "sint (nextID s) < 2 ^ 63 - 1" and "apply_op J x s d = (ids, s', d')"
  shows "ids_ok s'"
proof (cases x)
  case (OpCreate io now title)
  then obtain r where "Create J io now title s d = (r, s', d')"
    using assms(3) by (auto split: prod.splits sum.splits)
  then show ?thesis by (rule ids_ok_Create [OF assms(1,2)])
next
  case (OpToggle io tid)
  then obtain r where "Toggle J io tid s d = (r, s', d')"
    using assms(3) by (auto split: prod.splits)
  then show ?thesis by (rule ids_ok_Toggle [OF assms(1)])
next
  case (OpDelete io tid)
  then obtain r where "Delete J io tid s d = (r, s', d')"
    using assms(3) by (auto split: prod.splits)
  then show ?thesis by (rule ids_ok_Delete [OF assms(1)])
qed

lemma ids_ok_run:
  "ids_ok s \<Longrightarrow> sint (nextID s) + int (length xs) < 2 ^ 63 \<Longrightarrow>
   run J xs s d = (ids, s', d') \<Longrightarrow> ids_ok s'"
proof (induction xs arbitrary: s d ids)
  case Nil
  then show ?case by simp
next
  case (Cons x xs)
  obtain ids1 s1 d1 where step: "apply_op J x s d = (ids1, s1, d1)"
    by (cases "apply_op J x s d") auto
  obtain ids2 where rest: "run J xs s1 d1 = (ids2, s', d')"
    using Cons.prems(3) step by (auto split: prod.splits)
  have small: "sint (nextID s) < 2 ^ 63 - 1" using Cons.prems(2) by simp
  have ok1: "ids_ok s1" by (rule ids_ok_apply_op [OF Cons.prems(1) small step])
  have "sint (nextID s1) + int (length xs) < 2 ^ 63"
    using apply_op_ids [OF step small] Cons.prems(2) by simp
  from Cons.IH [OF ok1 this rest] show ?case .
qed

lemma ids_ok_NewTaskStore:
  assumes new: "NewTaskStore J io dir d = Inr s"
    and dist: "distinct (map ID (tasks s))"
    and nomax: "\<forall>t\<in>set (tasks s). ID t \<noteq> MaxInt64"
  shows "ids_ok s"
proof (cases "tasks s = []")
  case True
  with dist show ?thesis by (simp add: ids_ok_def)
next
  case False
  let ?m = "maxID_loop 0 (tasks s)"
  from new False have n: "nextID s = (if ?m + 1 <s 1 then 1 else ?m + 1)"
    by (auto simp: NewTaskStore_def load_def Let_def split: if_splits option.splits)
  have "?m \<noteq> MaxInt64"
    using maxID_loop_mem [of 0 "tasks s"] nomax by (auto simp: MaxInt64_def)
  then have "sint (?m + 1) = sint ?m + 1" by (intro sint_succ) (simp add: not_MaxInt64)
  moreover have "0 \<le> sint ?m" using maxID_loop_ge [of 0 "tasks s"] by simp
  ultimately have "sint (nextID s) = sint ?m + 1" by (simp add: n word_sless_alt)
  then have "\<forall>t\<in>set (tasks s). sint (ID t) < sint (nextID s)"
    using maxID_loop_upper [of _ "tasks s" 0] by fastforce
  with dist show ?thesis by (simp add: ids_ok_def word_sless_alt)
qed

text \<open>
  C5, as amended. Let a store be built by \<^verbatim>\<open>NewTaskStore\<close> over no data file, or over
  a data file whose ids are distinct and are not the largest \<^verbatim>\<open>int\<close>. After any sequence
  of \<open>n\<close> requests with \<open>nextID + n\<close> not above the largest \<^verbatim>\<open>int\<close>, the ids in the
  store are distinct, and all of them are below \<open>nextID\<close>.
\<close>

theorem ids_stay_distinct:
  assumes "NewTaskStore J io dir d0 = Inr s0"
    and "distinct (map ID (tasks s0))"
    and "\<forall>t\<in>set (tasks s0). ID t \<noteq> MaxInt64"
    and "sint (nextID s0) + int (length xs) < 2 ^ 63"
    and "run J xs s0 d0 = (ids, s, d)"
  shows "distinct (map ID (tasks s)) \<and> (\<forall>t\<in>set (tasks s). ID t <s nextID s)"
proof -
  have "ids_ok s0" by (rule ids_ok_NewTaskStore [OF assms(1-3)])
  from ids_ok_run [OF this assms(4,5)] show ?thesis by (simp add: ids_ok_def)
qed

theorem ids_stay_distinct_witness:
  "NewTaskStore plain_json LoadOK ''data'' (Some tasks_3_7_2) =
     Inr \<lparr>tasks = tasks_3_7_2, nextID = 8, dataDir = ''data''\<rparr> \<and>
   map ID tasks_3_7_2 = [3, 7, 2] \<and> distinct [3, 7, 2 :: int64] \<and>
   MaxInt64 \<notin> set [3, 7, 2 :: int64] \<and>
   sint (8 :: int64) + int (length [OpCreate SaveOK 0 ''d'', OpDelete SaveOK 7, OpToggle SaveOK 3])
     < 2 ^ 63 \<and>
   map ID (tasks (fst (snd (run plain_json
       [OpCreate SaveOK 0 ''d'', OpDelete SaveOK 7, OpToggle SaveOK 3]
       \<lparr>tasks = tasks_3_7_2, nextID = 8, dataDir = ''data''\<rparr> (Some tasks_3_7_2))))) = [3, 2, 8] \<and>
   distinct [3, 2, 8 :: int64]"
proof -
  let ?s0 = "\<lparr>tasks = tasks_3_7_2, nextID = 8, dataDir = ''data''\<rparr>"
  let ?xs = "[OpCreate SaveOK 0 ''d'', OpDelete SaveOK 7, OpToggle SaveOK 3]"
  have new: "NewTaskStore plain_json LoadOK ''data'' (Some tasks_3_7_2) = Inr ?s0"
    by code_simp
  have dist: "distinct (map ID (tasks ?s0))"
    by (simp add: tasks_3_7_2_def mk_task_def)
  have nomax: "\<forall>t\<in>set (tasks ?s0). ID t \<noteq> MaxInt64"
    by (simp add: tasks_3_7_2_def mk_task_def MaxInt64_def)
  have bound: "sint (nextID ?s0) + int (length ?xs) < 2 ^ 63" by simp
  have final: "map ID (tasks (fst (snd (run plain_json ?xs ?s0 (Some tasks_3_7_2))))) = [3, 2, 8]"
    by code_simp
  obtain ids s d where r: "run plain_json ?xs ?s0 (Some tasks_3_7_2) = (ids, s, d)"
    by (cases "run plain_json ?xs ?s0 (Some tasks_3_7_2)") auto
  from ids_stay_distinct [OF new dist nomax bound r] have "distinct (map ID (tasks s))"
    by blast
  then have "distinct [3, 2, 8 :: int64]" using final r by simp
  moreover have "map ID tasks_3_7_2 = [3, 7, 2] \<and> distinct [3, 7, 2 :: int64] \<and>
      MaxInt64 \<notin> set [3, 7, 2 :: int64]"
    by (simp add: tasks_3_7_2_def mk_task_def MaxInt64_def)
  ultimately show ?thesis using new bound final by simp
qed

text \<open>
  \<^verbatim>\<open>load\<close> does not check the ids it reads: a data file with two tasks of id 1 decodes,
  and the store built over it holds both.
\<close>

theorem ids_distinct_counterexample:
  "NewTaskStore plain_json LoadOK ''data'' (Some [mk_task 1 ''a'', mk_task 1 ''b'']) =
     Inr dup_store \<and>
   \<not> distinct (map ID (tasks dup_store))"
  by (simp add: NewTaskStore_def load_def plain_json_def dup_store_def mk_task_def
        word_sless_alt)

subsection \<open>List\<close>

lemma length_elems: "valid_slice h sl \<Longrightarrow> length (elems h sl) = sl_len sl"
  by (auto simp: valid_slice_def elems_def)

lemma elems_grown: "sl_array sl < length h \<Longrightarrow> elems (h @ [a]) sl = elems h sl"
  by (simp add: elems_def nth_append)

lemma List_slices_eq:
  assumes "valid_slice h sl"
  shows "List_slices h sl =
           (\<lparr>sl_array = length h, sl_off = 0, sl_len = sl_len sl, sl_cap = sl_len sl\<rparr>,
            h @ [elems h sl])"
proof -
  have a: "sl_array sl < length h" using assms by (simp add: valid_slice_def)
  have n: "length (elems h sl) = sl_len sl" by (rule length_elems [OF assms])
  show ?thesis
    using n by (simp add: List_slices_def make_def copy_def elems_grown [OF a])
qed

text \<open>
  C7. \<^verbatim>\<open>List\<close> has no error result and returns the tasks of the store in their order.
  On slices and backing arrays: when the slice \<open>sl\<close> of a store holds its tasks,
  \<^verbatim>\<open>List\<close> returns a slice on a newly allocated array with the same elements in the same
  order; the arrays that existed before, and so the store, are unchanged; and an
  assignment to any element of the returned slice changes that slice and leaves the
  arrays that existed before, and the tasks of the store, as they were.
\<close>

theorem List_snapshot:
  assumes "valid_slice h sl" and "elems h sl = tasks s"
  shows "\<exists>out h'. List_slices h sl = (out, h') \<and>
           elems h' out = List s \<and>
           sl_array out = length h \<and> take (length h) h' = h \<and>
           elems h' sl = tasks s \<and>
           (\<forall>i v. i < length (List s) \<longrightarrow>
              (\<exists>h''. store_elem h' out i v = Some h'' \<and>
                 elems h'' out = (List s)[i := v] \<and>
                 take (length h) h'' = h \<and>
                 elems h'' sl = tasks s))"
proof -
  let ?out = "\<lparr>sl_array = length h, sl_off = 0, sl_len = sl_len sl, sl_cap = sl_len sl\<rparr>"
  let ?h' = "h @ [elems h sl]"
  have a: "sl_array sl < length h" using assms(1) by (simp add: valid_slice_def)
  have n: "length (tasks s) = sl_len sl" using length_elems [OF assms(1)] assms(2) by simp
  have r: "List_slices h sl = (?out, ?h')" by (rule List_slices_eq [OF assms(1)])
  have h': "?h' = h @ [tasks s]" by (simp add: assms(2))
  have e: "elems ?h' ?out = List s"
    unfolding h' using n by (simp add: elems_def List_def)
  have k: "elems ?h' sl = tasks s"
    using elems_grown [OF a] assms(2) by simp
  have w: "\<forall>i v. i < length (List s) \<longrightarrow>
              (\<exists>h''. store_elem ?h' ?out i v = Some h'' \<and>
                 elems h'' ?out = (List s)[i := v] \<and>
                 take (length h) h'' = h \<and>
                 elems h'' sl = tasks s)"
  proof (intro allI impI)
    fix i v
    assume "i < length (List s)"
    then have i: "i < sl_len sl" using n by (simp add: List_def)
    let ?h'' = "h @ [(tasks s)[i := v]]"
    have "store_elem ?h' ?out i v = Some ?h''"
      using i by (simp add: store_elem_def assms(2))
    moreover have "elems ?h'' ?out = (List s)[i := v]"
      using n by (simp add: elems_def List_def)
    moreover have "take (length h) ?h'' = h" by simp
    moreover have "elems ?h'' sl = tasks s"
      using elems_grown [OF a] assms(2) by simp
    ultimately show "\<exists>h''. store_elem ?h' ?out i v = Some h'' \<and>
                 elems h'' ?out = (List s)[i := v] \<and>
                 take (length h) h'' = h \<and>
                 elems h'' sl = tasks s"
      by blast
  qed
  have "List_slices h sl = (?out, ?h') \<and>
           elems ?h' ?out = List s \<and>
           sl_array ?out = length h \<and> take (length h) ?h' = h \<and>
           elems ?h' sl = tasks s \<and>
           (\<forall>i v. i < length (List s) \<longrightarrow>
              (\<exists>h''. store_elem ?h' ?out i v = Some h'' \<and>
                 elems h'' ?out = (List s)[i := v] \<and>
                 take (length h) h'' = h \<and>
                 elems h'' sl = tasks s))"
    using r e k w by simp
  then show ?thesis by blast
qed


theorem List_snapshot_witness:
  "valid_slice [ [mk_task 1 ''Buy milk'', zeroTask] ]
     \<lparr>sl_array = 0, sl_off = 0, sl_len = 1, sl_cap = 2\<rparr> \<and>
   elems [ [mk_task 1 ''Buy milk'', zeroTask] ]
     \<lparr>sl_array = 0, sl_off = 0, sl_len = 1, sl_cap = 2\<rparr> = tasks one_task_store \<and>
   List_slices [ [mk_task 1 ''Buy milk'', zeroTask] ]
     \<lparr>sl_array = 0, sl_off = 0, sl_len = 1, sl_cap = 2\<rparr> =
     (\<lparr>sl_array = 1, sl_off = 0, sl_len = 1, sl_cap = 1\<rparr>,
      [ [mk_task 1 ''Buy milk'', zeroTask], [mk_task 1 ''Buy milk''] ]) \<and>
   store_elem [ [mk_task 1 ''Buy milk'', zeroTask], [mk_task 1 ''Buy milk''] ]
     \<lparr>sl_array = 1, sl_off = 0, sl_len = 1, sl_cap = 1\<rparr> 0 (mk_task 9 ''changed'') =
     Some [ [mk_task 1 ''Buy milk'', zeroTask], [mk_task 9 ''changed''] ] \<and>
   elems [ [mk_task 1 ''Buy milk'', zeroTask], [mk_task 9 ''changed''] ]
     \<lparr>sl_array = 0, sl_off = 0, sl_len = 1, sl_cap = 2\<rparr> = tasks one_task_store"
proof -
  let ?h = "[ [mk_task 1 ''Buy milk'', zeroTask] ]"
  let ?sl = "\<lparr>sl_array = 0, sl_off = 0, sl_len = 1, sl_cap = 2\<rparr>"
  let ?out = "\<lparr>sl_array = 1, sl_off = 0, sl_len = 1, sl_cap = 1\<rparr>"
  let ?h' = "[ [mk_task 1 ''Buy milk'', zeroTask], [mk_task 1 ''Buy milk''] ]"
  let ?h'' = "[ [mk_task 1 ''Buy milk'', zeroTask], [mk_task 9 ''changed''] ]"
  have v: "valid_slice ?h ?sl" by (simp add: valid_slice_def)
  have el: "elems ?h ?sl = tasks one_task_store"
    by (simp add: elems_def one_task_store_def)
  have ls: "List_slices ?h ?sl = (?out, ?h')"
    by (simp add: List_slices_def make_def copy_def elems_def)
  have st: "store_elem ?h' ?out 0 (mk_task 9 ''changed'') = Some ?h''"
    by (simp add: store_elem_def)
  have len: "0 < length (List one_task_store)"
    by (simp add: List_def one_task_store_def)
  from List_snapshot [OF v el] ls
  have "\<forall>i v. i < length (List one_task_store) \<longrightarrow>
          (\<exists>h''. store_elem ?h' ?out i v = Some h'' \<and> elems h'' ?sl = tasks one_task_store)"
    by auto
  then have "\<exists>h''. store_elem ?h' ?out 0 (mk_task 9 ''changed'') = Some h'' \<and>
      elems h'' ?sl = tasks one_task_store"
    using len by (elim allE [where x = 0] allE [where x = "mk_task 9 ''changed''"]) simp
  then have "elems ?h'' ?sl = tasks one_task_store" unfolding st by simp
  with v el ls st show ?thesis by blast
qed

end
